theory Spec2Isabelle
  imports Main "HOL-Library.Word" "HOL-Library.AList"
begin

section \<open>routerd: start-up (RouterDMain) and the per-request in-progress set\<close>

text \<open>
  The development follows \<^verbatim>\<open>src/routerd_lib/main.cpp\<close> and
  \<^verbatim>\<open>src/routerd_lib/request.hpp\<close>.

  Conventions of the embedding.
  \<^item> A \<^verbatim>\<open>std::unordered_map\<close> is an association list with the keys in iteration
    order; a \<^verbatim>\<open>std::unordered_set\<close> that the code iterates is a list without
    repetitions. The standard leaves the iteration order open; the model iterates in list
    order and appends new keys at the end. The properties proved below are stated for
    arbitrary lists and, for the trees, in terms of their keys and sets only.
  \<^item> Every \<^verbatim>\<open>std::cerr << ...; return 1;\<close> of the source is the failure
    \<open>Exit1 msg\<close>, with the line that was printed.
  \<^item> Every C++ exception that the source lets escape is the failure \<open>Thrown e\<close>.
\<close>

subsection \<open>Failures\<close>

datatype exn =
    json_type_error     \<comment> \<open>nlohmann: a value of the wrong JSON type\<close>
  | json_parse_error    \<comment> \<open>nlohmann: the text is not JSON\<close>
  | json_missing_key    \<comment> \<open>nlohmann: const \<^verbatim>\<open>operator[]\<close> on an absent key (an assertion, else undefined)\<close>
  | std_out_of_range    \<comment> \<open>\<^verbatim>\<open>at()\<close> of a standard map on an absent key\<close>

datatype failure =
    Exit1 string        \<comment> \<open>the line written to \<^verbatim>\<open>std::cerr\<close>, then \<^verbatim>\<open>return 1\<close>\<close>
  | Thrown exn

subsection \<open>The JSON values of the configuration and the accessors the code uses\<close>

datatype json =
    JNull
  | JBool bool
  | JNum int
  | JStr string
  | JArr "json list"
  | JObj "(string \<times> json) list"

text \<open>\<^verbatim>\<open>j.count(key)\<close>: 0 on anything that is not an object.\<close>

definition jcount :: "json \<Rightarrow> string \<Rightarrow> nat" where
  "jcount j k = (case j of JObj kvs \<Rightarrow> (if k \<in> fst ` set kvs then 1 else 0) | _ \<Rightarrow> 0)"

text \<open>\<^verbatim>\<open>j[key]\<close> on a const reference (\<open>data\<close>, \<open>service_\<close>, \<open>dep\<close>, \<open>route\<close>).\<close>

definition jat_const :: "json \<Rightarrow> string \<Rightarrow> failure + json" where
  "jat_const j k =
     (case j of
        JObj kvs \<Rightarrow> (case map_of kvs k of
                       Some v \<Rightarrow> Inr v
                     | None \<Rightarrow> Inl (Thrown json_missing_key))
      | _ \<Rightarrow> Inl (Thrown json_type_error))"

text \<open>
  \<^verbatim>\<open>config[key]\<close> on the mutable \<open>config\<close>: null turns into an empty object, and an
  absent key is created with the value null. Only the value read is modelled.
\<close>

definition jat_mut :: "json \<Rightarrow> string \<Rightarrow> failure + json" where
  "jat_mut j k =
     (case j of
        JNull \<Rightarrow> Inr JNull
      | JObj kvs \<Rightarrow> (case map_of kvs k of Some v \<Rightarrow> Inr v | None \<Rightarrow> Inr JNull)
      | _ \<Rightarrow> Inl (Thrown json_type_error))"

definition get_string :: "json \<Rightarrow> failure + string" where
  "get_string j = (case j of JStr s \<Rightarrow> Inr s | _ \<Rightarrow> Inl (Thrown json_type_error))"

definition get_vector_json :: "json \<Rightarrow> failure + json list" where
  "get_vector_json j = (case j of JArr xs \<Rightarrow> Inr xs | _ \<Rightarrow> Inl (Thrown json_type_error))"

fun get_strings :: "json list \<Rightarrow> failure + string list" where
  "get_strings [] = Inr []"
| "get_strings (j # js) =
     (case get_string j of
        Inl e \<Rightarrow> Inl e
      | Inr s \<Rightarrow> (case get_strings js of Inl e \<Rightarrow> Inl e | Inr ss \<Rightarrow> Inr (s # ss)))"

definition get_vector_string :: "json \<Rightarrow> failure + string list" where
  "get_vector_string j =
     (case get_vector_json j of Inl e \<Rightarrow> Inl e | Inr xs \<Rightarrow> get_strings xs)"

definition get_umap_json :: "json \<Rightarrow> failure + (string \<times> json) list" where
  "get_umap_json j = (case j of JObj kvs \<Rightarrow> Inr kvs | _ \<Rightarrow> Inl (Thrown json_type_error))"

fun get_host_lists :: "(string \<times> json) list \<Rightarrow> failure + (string \<times> string list) list" where
  "get_host_lists [] = Inr []"
| "get_host_lists ((k, v) # kvs) =
     (case get_vector_string v of
        Inl e \<Rightarrow> Inl e
      | Inr hs \<Rightarrow> (case get_host_lists kvs of
                     Inl e \<Rightarrow> Inl e
                   | Inr rest \<Rightarrow> Inr ((k, hs) # rest)))"

definition get_umap_vector_string :: "json \<Rightarrow> failure + (string \<times> string list) list" where
  "get_umap_vector_string j =
     (case get_umap_json j of Inl e \<Rightarrow> Inl e | Inr kvs \<Rightarrow> get_host_lists kvs)"

subsection \<open>Hosts (main.cpp, lines 48 to 77)\<close>

record TServiceHost =
  Addr :: string
  Port :: "16 word"

text \<open>\<^verbatim>\<open>host.rfind(':')\<close>: the index of the last colon, \<open>None\<close> for \<^verbatim>\<open>npos\<close>.\<close>

fun rfind :: "char \<Rightarrow> string \<Rightarrow> nat option" where
  "rfind c [] = None"
| "rfind c (x # xs) =
     (case rfind c xs of
        Some i \<Rightarrow> Some (Suc i)
      | None \<Rightarrow> (if x = c then Some 0 else None))"

text \<open>
  \<^verbatim>\<open>host.data() + colon + 1\<close> is read as a C string: it ends at the first NUL byte.
\<close>

definition c_str :: "string \<Rightarrow> string" where
  "c_str s = takeWhile (\<lambda>c. c \<noteq> CHR 0x00) s"

definition isspace :: "char \<Rightarrow> bool" where
  "isspace c = (c \<in> set [CHR '' '', CHR 0x09, CHR 0x0A, CHR 0x0B, CHR 0x0C, CHR 0x0D])"

definition isdigit :: "char \<Rightarrow> bool" where
  "isdigit c = (c \<in> set ''0123456789'')"

definition digit_val :: "char \<Rightarrow> nat" where
  "digit_val c = of_char c - 48"

definition decimal :: "string \<Rightarrow> nat" where
  "decimal ds = foldl (\<lambda>acc c. 10 * acc + digit_val c) 0 ds"

text \<open>
  \<^verbatim>\<open>unsigned short port; ss << suffix; ss >> port;\<close> The extraction of the standard
  library, as the code relies on it: leading white space is skipped; when nothing is left
  the variable is not written and keeps the indeterminate value \<open>garbage\<close> it was declared
  with; otherwise an optional sign and the longest run of decimal digits are read, no digit
  stores 0, a magnitude above 65535 stores 65535, and a minus sign negates modulo \<open>2^16\<close>.
  The state of the stream is never tested by the code.
\<close>

definition extract_ushort :: "16 word \<Rightarrow> string \<Rightarrow> 16 word" where
  "extract_ushort garbage s =
     (let s1 = dropWhile isspace s in
      if s1 = [] then garbage
      else
        let neg = (hd s1 = CHR ''-'');
            s2 = (if hd s1 = CHR ''-'' \<or> hd s1 = CHR ''+'' then tl s1 else s1);
            ds = takeWhile isdigit s2;
            m = decimal ds
        in if ds = [] then 0
           else if m > 65535 then 65535
           else if neg then - (of_nat m) else of_nat m)"

text \<open>Lines 67 to 75: the entry for a host whose last colon is at index \<open>colon\<close>.\<close>

definition hostEntry :: "16 word \<Rightarrow> string \<Rightarrow> nat \<Rightarrow> TServiceHost" where
  "hostEntry garbage host colon =
     \<lparr> Addr = take colon host,
       Port = extract_ushort garbage (c_str (drop (colon + 1) host)) \<rparr>"

text \<open>The body of the inner loop, lines 60 to 75, for the host group \<open>grp\<close>.\<close>

definition parseHost :: "16 word \<Rightarrow> string \<Rightarrow> string \<Rightarrow> failure + TServiceHost" where
  "parseHost garbage grp host =
     (case rfind CHR '':'' host of
        None \<Rightarrow> Inl (Exit1 (grp @ '': '' @ host @ '' has no port specified''))
      | Some colon \<Rightarrow> Inr (hostEntry garbage host colon))"

text \<open>The inner loop, lines 59 to 76: \<open>hosts'\<close> (the source's \<^verbatim>\<open>hosts_\<close>) is the vector being filled.\<close>

fun parseHosts ::
  "16 word \<Rightarrow> string \<Rightarrow> TServiceHost list \<Rightarrow> string list \<Rightarrow> failure + TServiceHost list" where
  "parseHosts garbage grp hosts' [] = Inr hosts'"
| "parseHosts garbage grp hosts' (host # rest) =
     (case parseHost garbage grp host of
        Inl e \<Rightarrow> Inl e
      | Inr h \<Rightarrow> parseHosts garbage grp (hosts' @ [h]) rest)"

type_synonym THosts = "(string \<times> TServiceHost list) list"

text \<open>\<^verbatim>\<open>hosts[key]\<close>: the vector stored under the key, created empty when absent.\<close>

definition hosts_index :: "THosts \<Rightarrow> string \<Rightarrow> THosts \<times> TServiceHost list" where
  "hosts_index hosts k =
     (case map_of hosts k of
        Some v \<Rightarrow> (hosts, v)
      | None \<Rightarrow> (hosts @ [(k, [])], []))"

text \<open>The outer loop, lines 50 to 77.\<close>

fun buildHosts ::
  "16 word \<Rightarrow> THosts \<Rightarrow> (string \<times> string list) list \<Rightarrow> failure + THosts" where
  "buildHosts garbage hosts [] = Inr hosts"
| "buildHosts garbage hosts ((grp, specs) # rest) =
     (if specs = [] then Inl (Exit1 (grp @ '' has no hosts''))
      else
        (case hosts_index hosts grp of
           (hosts1, hosts') \<Rightarrow>
             (case parseHosts garbage grp hosts' specs of
                Inl e \<Rightarrow> Inl e
              | Inr v \<Rightarrow> buildHosts garbage (AList.update grp v hosts1) rest)))"

subsection \<open>Sequencing of steps that may fail\<close>

definition andThen :: "failure + 'a \<Rightarrow> ('a \<Rightarrow> failure + 'b) \<Rightarrow> failure + 'b" where
  "andThen m f = (case m of Inl e \<Rightarrow> Inl e | Inr x \<Rightarrow> f x)"

subsection \<open>Maps and sets of the standard library\<close>

text \<open>\<^verbatim>\<open>m.count(k)\<close> of a map with unique keys.\<close>

definition umap_count :: "('k \<times> 'v) list \<Rightarrow> 'k \<Rightarrow> nat" where
  "umap_count m k = (if k \<in> fst ` set m then 1 else 0)"

text \<open>\<^verbatim>\<open>m.emplace(k, v)\<close>: nothing happens when the key is present.\<close>

definition emplace :: "'k \<Rightarrow> 'v \<Rightarrow> ('k \<times> 'v) list \<Rightarrow> ('k \<times> 'v) list" where
  "emplace k v m = (if k \<in> fst ` set m then m else m @ [(k, v)])"

text \<open>\<^verbatim>\<open>s.insert(x)\<close> of a set.\<close>

definition set_insert :: "'a \<Rightarrow> 'a list \<Rightarrow> 'a list" where
  "set_insert x s = (if x \<in> set s then s else s @ [x])"

text \<open>\<^verbatim>\<open>m.at(k)\<close>: throws \<^verbatim>\<open>std::out_of_range\<close> when the key is absent.\<close>

definition umap_at :: "('k \<times> 'v) list \<Rightarrow> 'k \<Rightarrow> failure + 'v" where
  "umap_at m k = (case map_of m k of Some v \<Rightarrow> Inr v | None \<Rightarrow> Inl (Thrown std_out_of_range))"

subsection \<open>Services and graphs\<close>

text \<open>
  \<^verbatim>\<open>TService\<close>, \<^verbatim>\<open>TRouterDGraph\<close> and \<^verbatim>\<open>TRouterDGraph::TTree\<close> are declared in
  \<^verbatim>\<open>structs.hpp\<close>; their fields are taken from the uses in \<^verbatim>\<open>main.cpp\<close>: a tree maps
  a name to a set of names. \<open>Path = None\<close> is the path of a default-constructed \<^verbatim>\<open>TService\<close>.
\<close>

record TService =
  Name :: string
  HostsFrom :: string
  Path :: "string option"

type_synonym TTree = "(string \<times> string list) list"

record TRouterDGraph =
  Services :: "(string \<times> TService) list"
  Tree :: TTree
  ReverseTree :: TTree

definition emptyGraph :: TRouterDGraph where
  "emptyGraph = \<lparr> Services = [], Tree = [], ReverseTree = [] \<rparr>"

text \<open>Lines 87 to 106: one entry of \<open>services\<close> becomes a \<^verbatim>\<open>TService\<close>.\<close>

definition normService :: "json \<Rightarrow> failure + TService" where
  "normService s =
     (case s of
        JStr n \<Rightarrow> Inr \<lparr> Name = n, HostsFrom = n, Path = None \<rparr>
      | _ \<Rightarrow>
          andThen (andThen (jat_const s ''name'') get_string) (\<lambda>n.
          andThen (if jcount s ''hosts_from'' > 0
                   then andThen (jat_const s ''hosts_from'') get_string
                   else Inr n) (\<lambda>hf.
          andThen (if jcount s ''path'' > 0
                   then andThen (andThen (jat_const s ''path'') get_string) (\<lambda>p. Inr (Some p))
                   else Inr None) (\<lambda>p.
          Inr \<lparr> Name = n, HostsFrom = hf, Path = p \<rparr>))))"

text \<open>Lines 86 to 120: the body of the loop over \<open>services\<close>, for the graph \<open>gname\<close>.\<close>

definition addService ::
  "string \<Rightarrow> THosts \<Rightarrow> TTree \<times> TRouterDGraph \<Rightarrow> json \<Rightarrow> failure + TTree \<times> TRouterDGraph" where
  "addService gname hosts st s =
     (case st of (tree, compiledGraph) \<Rightarrow>
        andThen (normService s) (\<lambda>service.
          if umap_count hosts (HostsFrom service) = 0
          then Inl (Exit1 (gname @ '': unknown hosts group: '' @ HostsFrom service))
          else if umap_count (Services compiledGraph) (Name service) > 0
          then Inl (Exit1 (gname @ '': service already present: '' @ Name service))
          else Inr (emplace (Name service) [] tree,
                    compiledGraph \<lparr> Services :=
                      emplace (Name service) service (Services compiledGraph) \<rparr>)))"

fun addServices ::
  "string \<Rightarrow> THosts \<Rightarrow> TTree \<times> TRouterDGraph \<Rightarrow> json list \<Rightarrow> failure + TTree \<times> TRouterDGraph" where
  "addServices gname hosts st [] = Inr st"
| "addServices gname hosts st (s # rest) =
     andThen (addService gname hosts st s) (\<lambda>st'. addServices gname hosts st' rest)"

subsection \<open>Dependencies (lines 125 to 146)\<close>

text \<open>\<^verbatim>\<open>tree[a].insert(b)\<close>: the set under \<open>a\<close> is created empty when absent.\<close>

definition tree_insert :: "string \<Rightarrow> string \<Rightarrow> TTree \<Rightarrow> TTree" where
  "tree_insert a b tree =
     (case map_of tree a of
        None \<Rightarrow> tree @ [(a, [b])]
      | Some s \<Rightarrow> AList.update a (set_insert b s) tree)"

definition addDep ::
  "string \<Rightarrow> TRouterDGraph \<Rightarrow> TTree \<times> TTree \<Rightarrow> json \<Rightarrow> failure + TTree \<times> TTree" where
  "addDep gname compiledGraph st dep =
     (case st of (tree, reverseTree) \<Rightarrow>
        andThen (andThen (jat_const dep ''a'') get_string) (\<lambda>a.
        andThen (andThen (jat_const dep ''b'') get_string) (\<lambda>b.
          if a = b
          then Inl (Exit1 (gname @ '': '' @ a @ '' depends on itself''))
          else if umap_count (Services compiledGraph) a = 0
          then Inl (Exit1 (gname @ '': unknown service in dependency: '' @ a))
          else if umap_count (Services compiledGraph) b = 0
          then Inl (Exit1 (gname @ '': unknown service in dependency: '' @ b))
          else Inr (tree_insert a b tree, tree_insert b a reverseTree))))"

fun addDeps ::
  "string \<Rightarrow> TRouterDGraph \<Rightarrow> TTree \<times> TTree \<Rightarrow> json list \<Rightarrow> failure + TTree \<times> TTree" where
  "addDeps gname compiledGraph st [] = Inr st"
| "addDeps gname compiledGraph st (dep # rest) =
     andThen (addDep gname compiledGraph st dep) (\<lambda>st'. addDeps gname compiledGraph st' rest)"

subsection \<open>The check for cycles (lines 151 to 178)\<close>

text \<open>Lines 152 to 160: the names whose set in \<open>tree\<close> is empty.\<close>

definition noDeps :: "TTree \<Rightarrow> string list" where
  "noDeps tree = map fst (filter (\<lambda>it. snd it = []) tree)"

text \<open>Lines 169 to 171: \<^verbatim>\<open>tree.at(it2).erase(it1)\<close> for every \<open>it2\<close> of the set.\<close>

fun eraseFrom :: "string \<Rightarrow> TTree \<Rightarrow> string list \<Rightarrow> failure + TTree" where
  "eraseFrom it1 tree [] = Inr tree"
| "eraseFrom it1 tree (it2 # rest) =
     andThen (umap_at tree it2) (\<lambda>s.
       eraseFrom it1 (AList.update it2 (removeAll it1 s) tree) rest)"

text \<open>Lines 168 to 176: the body of the loop over \<open>noDeps\<close>.\<close>

definition removeNode :: "TTree \<times> TTree \<Rightarrow> string \<Rightarrow> failure + TTree \<times> TTree" where
  "removeNode st it1 =
     (case st of (tree, reverseTree) \<Rightarrow>
        andThen (if umap_count reverseTree it1 > 0
                 then andThen (umap_at reverseTree it1) (\<lambda>s.
                      andThen (eraseFrom it1 tree s) (\<lambda>tree'.
                        Inr (tree', AList.delete it1 reverseTree)))
                 else Inr (tree, reverseTree)) (\<lambda>st'.
          case st' of (tree', reverseTree') \<Rightarrow> Inr (AList.delete it1 tree', reverseTree')))"

fun removeNodes :: "TTree \<times> TTree \<Rightarrow> string list \<Rightarrow> failure + TTree \<times> TTree" where
  "removeNodes st [] = Inr st"
| "removeNodes st (it1 # rest) = andThen (removeNode st it1) (\<lambda>st'. removeNodes st' rest)"

text \<open>
  Every pass of the \<^verbatim>\<open>while\<close> loop that finds a name without dependencies removes it
  from \<open>tree\<close>, which is why the loop ends.
\<close>

lemma andThen_simps [simp]: "andThen (Inl e) f = Inl e" "andThen (Inr x) f = f x"
  by (simp_all add: andThen_def)

lemma andThen_Inr_iff: "andThen m f = Inr y \<longleftrightarrow> (\<exists>x. m = Inr x \<and> f x = Inr y)"
  by (cases m) (simp_all add: andThen_def)

lemma umap_at_Inr_iff: "umap_at m k = Inr v \<longleftrightarrow> map_of m k = Some v"
  by (simp add: umap_at_def split: option.splits)

lemma eraseFrom_keys: "eraseFrom it1 tree s = Inr tree' \<Longrightarrow> map fst tree' = map fst tree"
proof (induction s arbitrary: tree)
  case Nil
  then show ?case by simp
next
  case (Cons it2 rest)
  from Cons.prems obtain v where v: "map_of tree it2 = Some v"
    and r: "eraseFrom it1 (AList.update it2 (removeAll it1 v) tree) rest = Inr tree'"
    by (auto simp: andThen_Inr_iff umap_at_Inr_iff)
  from v have "it2 \<in> fst ` set tree" by (force dest: map_of_SomeD)
  with Cons.IH[OF r] show ?case by (simp add: update_keys)
qed

lemma removeNode_keys:
  "removeNode (tree, rt) it1 = Inr (tree', rt') \<Longrightarrow> map fst tree' = removeAll it1 (map fst tree)"
  by (auto simp: removeNode_def andThen_Inr_iff delete_keys dest!: eraseFrom_keys split: if_splits)

lemma removeNodes_keys:
  "removeNodes (tree, rt) ns = Inr (tree', rt') \<Longrightarrow>
   map fst tree' = filter (\<lambda>k. k \<notin> set ns) (map fst tree)"
proof (induction ns arbitrary: tree rt)
  case Nil
  then show ?case by simp
next
  case (Cons n ns)
  from Cons.prems obtain t1 r1 where s1: "removeNode (tree, rt) n = Inr (t1, r1)"
    and s2: "removeNodes (t1, r1) ns = Inr (tree', rt')"
    by (auto simp: andThen_Inr_iff)
  have "map fst tree' = filter (\<lambda>k. k \<notin> set ns) (removeAll n (map fst tree))"
    using Cons.IH[OF s2] removeNode_keys[OF s1] by simp
  then show ?case by (simp add: removeAll_filter_not_eq conj_commute eq_commute)
qed

lemma noDeps_subset: "set (noDeps tree) \<subseteq> fst ` set tree"
  by (auto simp: noDeps_def)

lemma removeNodes_shrinks:
  assumes "removeNodes (tree, rt) (noDeps tree) = Inr (tree', rt')" and "noDeps tree \<noteq> []"
  shows "length tree' < length tree"
proof -
  obtain n where n: "n \<in> set (noDeps tree)" using assms(2) by (cases "noDeps tree") auto
  then have nk: "n \<in> set (map fst tree)" using noDeps_subset by fastforce
  have "length (map fst tree') < length (map fst tree)"
    unfolding removeNodes_keys[OF assms(1)]
    by (rule length_filter_less[OF nk]) (use n in simp)
  then show ?thesis by simp
qed

text \<open>The loop of lines 151 to 178, on the local copies \<open>tree\<close> and \<open>reverseTree\<close>.\<close>

function kahn :: "string \<Rightarrow> TTree \<times> TTree \<Rightarrow> failure + TTree \<times> TTree" where
  "kahn gname (tree, reverseTree) =
     (if tree = [] then Inr (tree, reverseTree)
      else if noDeps tree = [] then Inl (Exit1 (gname @ '': cycle in dependencies''))
      else (case removeNodes (tree, reverseTree) (noDeps tree) of
              Inl e \<Rightarrow> Inl e
            | Inr st' \<Rightarrow> kahn gname st'))"
  by pat_completeness auto
termination
  by (relation "measure (\<lambda>(gname, tree, reverseTree). length tree)")
     (auto dest: removeNodes_shrinks)


subsection \<open>One graph (lines 82 to 184) and all graphs (lines 79 to 185)\<close>

text \<open>
  The result is the \<open>compiledGraph\<close> that is moved into the handler. With \<open>deps\<close>, the
  fields \<open>Tree\<close> and \<open>ReverseTree\<close> are assigned on lines 148 and 149, before the loop
  that empties the locals: the assignment copies the maps, so \<open>compiledGraph'\<close> is a value
  of its own, and what the loop leaves in the locals is dropped.
\<close>

definition compileGraph :: "THosts \<Rightarrow> string \<Rightarrow> json \<Rightarrow> failure + TRouterDGraph" where
  "compileGraph hosts gname data =
     andThen (andThen (jat_const data ''services'') get_vector_json) (\<lambda>services.
     andThen (addServices gname hosts ([], emptyGraph) services) (\<lambda>st.
       case st of (tree, compiledGraph) \<Rightarrow>
         if jcount data ''deps'' > 0
         then
           andThen (andThen (jat_const data ''deps'') get_vector_json) (\<lambda>deps.
           andThen (addDeps gname compiledGraph (tree, []) deps) (\<lambda>st'.
             case st' of (tree', reverseTree) \<Rightarrow>
               let compiledGraph' = compiledGraph \<lparr> Tree := tree', ReverseTree := reverseTree \<rparr>
               in andThen (kahn gname (tree', reverseTree)) (\<lambda>_. Inr compiledGraph')))
         else Inr (compiledGraph \<lparr> Tree := tree \<rparr>)))"

record TRouterDProxyHandler =
  Hosts :: THosts
  Graph :: TRouterDGraph

type_synonym TGraphs = "(string \<times> TRouterDProxyHandler) list"

fun compileGraphs :: "THosts \<Rightarrow> TGraphs \<Rightarrow> (string \<times> json) list \<Rightarrow> failure + TGraphs" where
  "compileGraphs hosts graphs [] = Inr graphs"
| "compileGraphs hosts graphs ((gname, data) # rest) =
     andThen (compileGraph hosts gname data) (\<lambda>compiledGraph.
       compileGraphs hosts
         (emplace gname \<lparr> Hosts = hosts, Graph = compiledGraph \<rparr> graphs) rest)"

subsection \<open>Routes (lines 187 to 191)\<close>

text \<open>
  The router of ac-library is the list of what was added to it, in order. The pattern
  is read before the graph is looked up.
\<close>

type_synonym TRouter = "(string \<times> TRouterDProxyHandler) list"

definition addRoute :: "TGraphs \<Rightarrow> TRouter \<Rightarrow> json \<Rightarrow> failure + TRouter" where
  "addRoute graphs router route =
     andThen (andThen (jat_const route ''r'') get_string) (\<lambda>r.
     andThen (andThen (jat_const route ''g'') get_string) (\<lambda>g.
     andThen (umap_at graphs g) (\<lambda>handler.
       Inr (router @ [(r, handler)]))))"

fun addRoutes :: "TGraphs \<Rightarrow> TRouter \<Rightarrow> json list \<Rightarrow> failure + TRouter" where
  "addRoutes graphs router [] = Inr router"
| "addRoutes graphs router (route # rest) =
     andThen (addRoute graphs router route) (\<lambda>router'. addRoutes graphs router' rest)"

subsection \<open>ParseConfig (lines 13 to 22) and RouterDMain (lines 41 to 191)\<close>

text \<open>
  The file system and the JSON parser are parameters: \<open>readFile path\<close> is the content of
  the file, \<open>None\<close> when it cannot be opened; \<open>parse text\<close> is the parsed value, \<open>None\<close>
  when the parser throws. The result is what ParseConfig wrote to \<^verbatim>\<open>std::cerr\<close> and
  what it returned or threw.
\<close>

definition ParseConfig ::
  "(string \<Rightarrow> string option) \<Rightarrow> (string \<Rightarrow> json option) \<Rightarrow> string
     \<Rightarrow> string list \<times> (failure + json)" where
  "ParseConfig readFile parse path =
     (case readFile path of
        None \<Rightarrow> ([''Failed to open '' @ path], Inr JNull)
      | Some text \<Rightarrow>
          ([], case parse text of
                 None \<Rightarrow> Inl (Thrown json_parse_error)
               | Some j \<Rightarrow> Inr j))"

text \<open>Lines 46 and 47.\<close>

definition optString :: "json \<Rightarrow> string \<Rightarrow> failure + string" where
  "optString config k =
     (if jcount config k > 0 then andThen (jat_mut config k) get_string else Inr [])"

text \<open>Lines 46 to 191, from the parsed configuration to the filled router.\<close>

definition startup :: "16 word \<Rightarrow> json \<Rightarrow> failure + TRouter" where
  "startup garbage config =
     andThen (optString config ''bind4'') (\<lambda>bind4.
     andThen (optString config ''bind6'') (\<lambda>bind6.
     andThen (andThen (jat_mut config ''hosts'') get_umap_vector_string) (\<lambda>specs.
     andThen (buildHosts garbage [] specs) (\<lambda>hosts.
     andThen (andThen (jat_mut config ''graphs'') get_umap_json) (\<lambda>gs.
     andThen (compileGraphs hosts [] gs) (\<lambda>graphs.
     andThen (andThen (jat_mut config ''routes'') get_vector_json) (\<lambda>routes.
       addRoutes graphs [] routes)))))))"

text \<open>
  How RouterDMain ends: it returns a code, or an exception leaves it, or it reaches
  line 193 with the router filled (the server that is started from there is not modelled).
\<close>

datatype ending = Returned int | Uncaught exn | ServerSetup TRouter

text \<open>The lines written to \<^verbatim>\<open>std::cerr\<close>, and the ending.\<close>

definition RouterDMain ::
  "(string \<Rightarrow> string option) \<Rightarrow> (string \<Rightarrow> json option) \<Rightarrow> 16 word \<Rightarrow> string
     \<Rightarrow> string list \<times> ending" where
  "RouterDMain readFile parse garbage configPath =
     (case ParseConfig readFile parse configPath of
        (err, Inl (Exit1 msg)) \<Rightarrow> (err @ [msg], Returned 1)
      | (err, Inl (Thrown e)) \<Rightarrow> (err, Uncaught e)
      | (err, Inr config) \<Rightarrow>
          (case startup garbage config of
             Inl (Exit1 msg) \<Rightarrow> (err @ [msg], Returned 1)
           | Inl (Thrown e) \<Rightarrow> (err, Uncaught e)
           | Inr router \<Rightarrow> (err, ServerSetup router)))"

subsection \<open>The in-progress set of a request (request.hpp, lines 58 to 72)\<close>

text \<open>
  The members of \<^verbatim>\<open>TRouterDRequest\<close>; \<^verbatim>\<open>OutgoingRequest_\<close>, a response object of
  ac-library, and the base class are left out: the four functions below do not touch them.
\<close>

record TArgs =
  AllowNestedRequests :: bool

record TRouterDRequest =
  Args :: TArgs
  OutgoingRequestInited :: bool
  ReqGraph :: TRouterDGraph
  InProgress :: "string set"

definition NewReply :: "string \<Rightarrow> TRouterDRequest \<Rightarrow> TRouterDRequest" where
  "NewReply name req = req \<lparr> InProgress := InProgress req - {name} \<rparr>"

definition NewRequest :: "string \<Rightarrow> TRouterDRequest \<Rightarrow> TRouterDRequest" where
  "NewRequest name req = req \<lparr> InProgress := insert name (InProgress req) \<rparr>"

definition InProgressCount :: "TRouterDRequest \<Rightarrow> nat" where
  "InProgressCount req = card (InProgress req)"

definition IsInProgress :: "TRouterDRequest \<Rightarrow> string \<Rightarrow> bool" where
  "IsInProgress req name = (name \<in> InProgress req)"

subsection \<open>Notions used to state the properties\<close>

text \<open>
  A host group is good when its list is not empty and every host string has a colon;
  \<open>hostsOf\<close> relates a good group to its entry of the host pool, one
  \<^verbatim>\<open>TServiceHost\<close> per host string; \<open>hostDiagnostic\<close> is the line printed for a group
  that is not good.
\<close>

definition goodGroup :: "string \<times> string list \<Rightarrow> bool" where
  "goodGroup spec = (snd spec \<noteq> [] \<and> (\<forall>h\<in>set (snd spec). CHR '':'' \<in> set h))"

definition hostsOf :: "16 word \<Rightarrow> string \<times> string list \<Rightarrow> string \<times> TServiceHost list \<Rightarrow> bool" where
  "hostsOf garbage spec entry =
     (fst entry = fst spec
      \<and> list_all2 (\<lambda>h e. parseHost garbage (fst spec) h = Inr e) (snd spec) (snd entry))"

definition hostDiagnostic :: "string \<times> string list \<Rightarrow> string \<Rightarrow> bool" where
  "hostDiagnostic spec msg =
     ((snd spec = [] \<and> msg = fst spec @ '' has no hosts'')
      \<or> (\<exists>h\<in>set (snd spec). CHR '':'' \<notin> set h
            \<and> msg = fst spec @ '': '' @ h @ '' has no port specified''))"

text \<open>
  The set stored under a name in a tree (empty when the name is no key), and the
  relation a tree stands for: \<open>(a, b)\<close> is an edge when \<open>b\<close> is in the set of \<open>a\<close>.
\<close>

definition adj :: "TTree \<Rightarrow> string \<Rightarrow> string set" where
  "adj tree k = (case map_of tree k of None \<Rightarrow> {} | Some s \<Rightarrow> set s)"

definition edges :: "TTree \<Rightarrow> (string \<times> string) set" where
  "edges tree = (\<Union>it\<in>set tree. Pair (fst it) ` set (snd it))"

text \<open>
  The pair read from one entry of \<open>deps\<close> (none when \<open>a\<close> or \<open>b\<close> is not a string), and
  the dependency relation of a \<open>deps\<close> list: \<open>(a, b)\<close> for every entry \<open>{a, b}\<close>.
\<close>

definition depOf :: "json \<Rightarrow> (string \<times> string) list" where
  "depOf dep =
     (case (andThen (jat_const dep ''a'') get_string, andThen (jat_const dep ''b'') get_string) of
        (Inr a, Inr b) \<Rightarrow> [(a, b)]
      | _ \<Rightarrow> [])"

definition depRel :: "json list \<Rightarrow> (string \<times> string) set" where
  "depRel deps = set (concat (map depOf deps))"

text \<open>
  The adjacency as the specification builds it: the forward set of every service starts
  empty, and every dependency \<open>{a, b}\<close> inserts \<open>b\<close> into the forward set of \<open>a\<close> and
  \<open>a\<close> into the reverse set of \<open>b\<close>.
\<close>

definition emptyTree :: "string list \<Rightarrow> TTree" where
  "emptyTree names = map (\<lambda>n. (n, [])) names"

definition snapshot :: "string list \<Rightarrow> (string \<times> string) list \<Rightarrow> TTree \<times> TTree" where
  "snapshot names pairs =
     foldl (\<lambda>fr ab. (tree_insert (fst ab) (snd ab) (fst fr), tree_insert (snd ab) (fst ab) (snd fr)))
       (emptyTree names, []) pairs"

text \<open>
  Invariants of the three stages: after the services (every service has an empty set in
  \<open>tree\<close>, the names are distinct, the graph has no trees yet); while the dependencies
  are inserted (\<open>reverseTree\<close> mirrors \<open>tree\<close>, all names are services, no name depends
  on itself); and during the check for cycles (\<open>reverseTree\<close> mirrors what is left of
  \<open>tree\<close>).
\<close>

definition svcInv :: "TTree \<Rightarrow> TRouterDGraph \<Rightarrow> bool" where
  "svcInv tree cg =
     (tree = emptyTree (map fst (Services cg))
      \<and> distinct (map fst (Services cg)) \<and> Tree cg = [] \<and> ReverseTree cg = [])"

definition depsInv :: "string list \<Rightarrow> TTree \<Rightarrow> TTree \<Rightarrow> bool" where
  "depsInv names tree reverseTree =
     (map fst tree = names
      \<and> distinct (map fst reverseTree)
      \<and> (\<forall>a. adj tree a \<subseteq> set names)
      \<and> fst ` set reverseTree \<subseteq> set names
      \<and> (\<forall>b. adj reverseTree b = {a. b \<in> adj tree a})
      \<and> (\<forall>b. b \<in> fst ` set reverseTree \<longrightarrow> adj reverseTree b \<noteq> {})
      \<and> (\<forall>a. a \<notin> adj tree a))"

definition kahnInv :: "TTree \<Rightarrow> TTree \<Rightarrow> bool" where
  "kahnInv tree reverseTree =
     (distinct (map fst tree)
      \<and> (\<forall>a. adj tree a \<subseteq> fst ` set tree)
      \<and> fst ` set reverseTree \<subseteq> fst ` set tree
      \<and> (\<forall>b\<in>fst ` set tree. adj reverseTree b = {a. b \<in> adj tree a}))"

text \<open>
  Concrete inputs: the configuration of the first scenario of the specification with its
  route pointing to a graph \<open>h\<close> that is not declared, its text, a file system that
  holds the text in \<^verbatim>\<open>routerd.json\<close>, and a parser that reads it; a file holding a
  single brace, and a parser that rejects it; a request with one service in progress.
\<close>

definition exampleConfig :: json where
  "exampleConfig =
     JObj [(''port'', JNum 8080),
           (''hosts'', JObj [(''svc'', JArr [JStr ''127.0.0.1:1''])]),
           (''graphs'', JObj [(''g'', JObj [(''services'', JArr [JStr ''svc''])])]),
           (''routes'', JArr [JObj [(''r'', JStr ''/x''), (''g'', JStr ''h'')]])]"

definition exampleText :: string where
  \<open>exampleText = ''{"port":8080,"hosts":{"svc":["127.0.0.1:1"]},"graphs":{"g":{"services":["svc"]}},"routes":[{"r":"/x","g":"h"}]}''\<close>

definition exampleFile :: "string \<Rightarrow> string option" where
  "exampleFile path = (if path = ''routerd.json'' then Some exampleText else None)"

definition exampleParse :: "string \<Rightarrow> json option" where
  "exampleParse text = (if text = exampleText then Some exampleConfig else None)"

definition brokenFile :: "string \<Rightarrow> string option" where
  "brokenFile path = (if path = ''routerd.json'' then Some ''{'' else None)"

definition brokenParse :: "string \<Rightarrow> json option" where
  "brokenParse text = (if text = ''{'' then None else Some JNull)"

definition exampleRequest :: TRouterDRequest where
  "exampleRequest =
     \<lparr> Args = \<lparr> AllowNestedRequests = False \<rparr>, OutgoingRequestInited = False,
       ReqGraph = emptyGraph, InProgress = {''a''} \<rparr>"

section \<open>Properties\<close>

subsection \<open>The host pool\<close>

lemma rfind_None_iff: "rfind c s = None \<longleftrightarrow> c \<notin> set s"
  by (induction s) (auto split: option.splits)

lemma rfind_append_last: "c \<notin> set suf \<Longrightarrow> rfind c (pre @ c # suf) = Some (length pre)"
  by (induction pre) (auto simp: rfind_None_iff[THEN iffD2] split: option.splits)

lemma parseHost_no_colon:
  "CHR '':'' \<notin> set host \<Longrightarrow>
   parseHost garbage grp host = Inl (Exit1 (grp @ '': '' @ host @ '' has no port specified''))"
  by (simp add: parseHost_def rfind_None_iff[THEN iffD2])

lemma parseHost_colon_ex: "CHR '':'' \<in> set host \<Longrightarrow> \<exists>e. parseHost garbage grp host = Inr e"
  by (cases "rfind CHR '':'' host") (simp_all add: parseHost_def rfind_None_iff)

lemma parseHosts_good:
  "\<forall>h\<in>set hs. CHR '':'' \<in> set h \<Longrightarrow>
   \<exists>es. parseHosts garbage grp acc hs = Inr (acc @ es)
      \<and> list_all2 (\<lambda>h e. parseHost garbage grp h = Inr e) hs es"
proof (induction hs arbitrary: acc)
  case Nil
  then show ?case by simp
next
  case (Cons h hs)
  from Cons.prems obtain e where e: "parseHost garbage grp h = Inr e"
    using parseHost_colon_ex by fastforce
  from Cons.prems have "\<forall>h\<in>set hs. CHR '':'' \<in> set h" by simp
  from Cons.IH[OF this, of "acc @ [e]"] obtain es
    where es: "parseHosts garbage grp (acc @ [e]) hs = Inr ((acc @ [e]) @ es)"
      and all: "list_all2 (\<lambda>h e. parseHost garbage grp h = Inr e) hs es"
    by blast
  have "parseHosts garbage grp acc (h # hs) = Inr (acc @ (e # es))"
    using e es by simp
  moreover have "list_all2 (\<lambda>h e. parseHost garbage grp h = Inr e) (h # hs) (e # es)"
    using e all by simp
  ultimately show ?case by blast
qed

lemma parseHosts_bad:
  "\<exists>h\<in>set hs. CHR '':'' \<notin> set h \<Longrightarrow>
   \<exists>h\<in>set hs. CHR '':'' \<notin> set h
      \<and> parseHosts garbage grp acc hs =
          Inl (Exit1 (grp @ '': '' @ h @ '' has no port specified''))"
proof (induction hs arbitrary: acc)
  case Nil
  then show ?case by simp
next
  case (Cons h hs)
  show ?case
  proof (cases "CHR '':'' \<in> set h")
    case False
    then show ?thesis by (simp add: parseHost_no_colon)
  next
    case True
    then obtain e where e: "parseHost garbage grp h = Inr e"
      using parseHost_colon_ex by blast
    from True Cons.prems have "\<exists>h\<in>set hs. CHR '':'' \<notin> set h" by auto
    from Cons.IH[OF this, of "acc @ [e]"] show ?thesis using e by auto
  qed
qed

lemma hosts_index_fresh:
  "grp \<notin> fst ` set hosts \<Longrightarrow> hosts_index hosts grp = (hosts @ [(grp, [])], [])"
  by (simp add: hosts_index_def map_of_eq_None_iff[THEN iffD2])

lemma update_appended: "k \<notin> fst ` set m \<Longrightarrow> AList.update k v (m @ [(k, w)]) = m @ [(k, v)]"
  by (induction m) auto

lemma buildHosts_good:
  "distinct (map fst specs) \<Longrightarrow> fst ` set specs \<inter> fst ` set hosts = {} \<Longrightarrow>
   \<forall>spec\<in>set specs. goodGroup spec \<Longrightarrow>
   \<exists>new. buildHosts garbage hosts specs = Inr (hosts @ new)
       \<and> list_all2 (hostsOf garbage) specs new"
proof (induction specs arbitrary: hosts)
  case Nil
  then show ?case by simp
next
  case (Cons spec specs)
  obtain grp hs where spec: "spec = (grp, hs)" by (cases spec)
  from Cons.prems(3) spec have ne: "hs \<noteq> []" and colons: "\<forall>h\<in>set hs. CHR '':'' \<in> set h"
    by (simp_all add: goodGroup_def)
  from Cons.prems(2) spec have fresh: "grp \<notin> fst ` set hosts" by auto
  from parseHosts_good[OF colons, of garbage grp "[]"] obtain es
    where es: "parseHosts garbage grp [] hs = Inr es"
      and all: "list_all2 (\<lambda>h e. parseHost garbage grp h = Inr e) hs es"
    by auto
  have step: "buildHosts garbage hosts (spec # specs)
              = buildHosts garbage (hosts @ [(grp, es)]) specs"
    using ne es fresh by (simp add: spec hosts_index_fresh update_appended)
  have d: "distinct (map fst specs)" using Cons.prems(1) by simp
  have disj: "fst ` set specs \<inter> fst ` set (hosts @ [(grp, es)]) = {}"
    using Cons.prems(1,2) spec by auto
  have g: "\<forall>spec\<in>set specs. goodGroup spec" using Cons.prems(3) by simp
  from Cons.IH[OF d disj g] obtain new
    where new: "buildHosts garbage (hosts @ [(grp, es)]) specs = Inr ((hosts @ [(grp, es)]) @ new)"
      and rel: "list_all2 (hostsOf garbage) specs new"
    by blast
  have "buildHosts garbage hosts (spec # specs) = Inr (hosts @ ((grp, es) # new))"
    using step new by simp
  moreover have "list_all2 (hostsOf garbage) (spec # specs) ((grp, es) # new)"
    using rel all by (simp add: hostsOf_def spec)
  ultimately show ?case by blast
qed

lemma buildHosts_bad:
  "\<exists>spec\<in>set specs. \<not> goodGroup spec \<Longrightarrow>
   \<exists>spec\<in>set specs. \<exists>msg. hostDiagnostic spec msg \<and> buildHosts garbage hosts specs = Inl (Exit1 msg)"
proof (induction specs arbitrary: hosts)
  case Nil
  then show ?case by simp
next
  case (Cons spec specs)
  obtain grp hs where spec: "spec = (grp, hs)" by (cases spec)
  show ?case
  proof (cases "hs = []")
    case True
    then show ?thesis by (simp add: spec hostDiagnostic_def)
  next
    case ne: False
    obtain hosts1 acc where idx: "hosts_index hosts grp = (hosts1, acc)"
      by (cases "hosts_index hosts grp")
    show ?thesis
    proof (cases "\<forall>h\<in>set hs. CHR '':'' \<in> set h")
      case False
      then have "\<exists>h\<in>set hs. CHR '':'' \<notin> set h" by simp
      from parseHosts_bad[OF this, of garbage grp acc] show ?thesis
        using ne idx by (auto simp: spec hostDiagnostic_def)
    next
      case True
      from parseHosts_good[OF True, of garbage grp acc] obtain v
        where v: "parseHosts garbage grp acc hs = Inr v" by blast
      from True ne Cons.prems spec have "\<exists>spec\<in>set specs. \<not> goodGroup spec"
        by (auto simp: goodGroup_def)
      from Cons.IH[OF this, of "AList.update grp v hosts1"] show ?thesis
        using ne idx v by (auto simp: spec)
    qed
  qed
qed

lemma RouterDMain_parsed:
  "readFile configPath = Some text \<Longrightarrow> parse text = Some config \<Longrightarrow>
   RouterDMain readFile parse garbage configPath =
     (case startup garbage config of
        Inl (Exit1 msg) \<Rightarrow> ([msg], Returned 1)
      | Inl (Thrown e) \<Rightarrow> ([], Uncaught e)
      | Inr router \<Rightarrow> ([], ServerSetup router))"
  by (simp add: RouterDMain_def ParseConfig_def split: sum.splits failure.splits)

lemma startup_hosts_fail:
  "optString config ''bind4'' = Inr b4 \<Longrightarrow> optString config ''bind6'' = Inr b6 \<Longrightarrow>
   andThen (jat_mut config ''hosts'') get_umap_vector_string = Inr specs \<Longrightarrow>
   buildHosts garbage [] specs = Inl f \<Longrightarrow> startup garbage config = Inl f"
  by (simp add: startup_def)

text \<open>
  C7. For a configuration that is read and whose \<open>hosts\<close> object has the expected
  shape: when some host group has an empty list, or some host string has no colon, the
  construction of the host pool stops with one of the two diagnostics, and RouterDMain
  returns 1 with that line on \<^verbatim>\<open>std::cerr\<close>; otherwise the construction succeeds and
  the pool holds, for every group, one entry per host string, in order.
\<close>

theorem host_pool_construction:
  assumes "distinct (map fst specs)"
    and "readFile configPath = Some text" and "parse text = Some config"
    and "optString config ''bind4'' = Inr bind4" and "optString config ''bind6'' = Inr bind6"
    and "andThen (jat_mut config ''hosts'') get_umap_vector_string = Inr specs"
  shows "if \<forall>spec\<in>set specs. goodGroup spec
         then \<exists>hosts. buildHosts garbage [] specs = Inr hosts
                \<and> list_all2 (hostsOf garbage) specs hosts
         else \<exists>spec\<in>set specs. \<exists>msg. hostDiagnostic spec msg
                \<and> buildHosts garbage [] specs = Inl (Exit1 msg)
                \<and> RouterDMain readFile parse garbage configPath = ([msg], Returned 1)"
proof (cases "\<forall>spec\<in>set specs. goodGroup spec")
  case True
  from buildHosts_good[OF assms(1) _ True, of "[]" garbage] True show ?thesis by simp
next
  case False
  then have "\<exists>spec\<in>set specs. \<not> goodGroup spec" by simp
  from buildHosts_bad[OF this, of garbage "[]"] obtain spec msg
    where spec: "spec \<in> set specs" and diag: "hostDiagnostic spec msg"
      and fails: "buildHosts garbage [] specs = Inl (Exit1 msg)"
    by blast
  have "startup garbage config = Inl (Exit1 msg)"
    by (rule startup_hosts_fail[OF assms(4,5,6) fails])
  then have "RouterDMain readFile parse garbage configPath = ([msg], Returned 1)"
    using assms(2,3) by (simp add: RouterDMain_parsed)
  with False spec diag fails show ?thesis by auto
qed

theorem host_pool_construction_witness:
  "distinct (map fst [(''svc'', [''127.0.0.1:1'']), (''db'', [])])
   \<and> \<not> (\<forall>spec\<in>set [(''svc'', [''127.0.0.1:1'']), (''db'', [])]. goodGroup spec)
   \<and> (\<exists>spec\<in>set [(''svc'', [''127.0.0.1:1'']), (''db'', [])]. \<exists>msg. hostDiagnostic spec msg
        \<and> buildHosts 0 [] [(''svc'', [''127.0.0.1:1'']), (''db'', [])] = Inl (Exit1 msg)
        \<and> RouterDMain (\<lambda>p. Some ''config'')
             (\<lambda>t. Some (JObj [(''hosts'',
                JObj [(''svc'', JArr [JStr ''127.0.0.1:1'']), (''db'', JArr [])])])) 0 ''routerd.json''
           = ([msg], Returned 1))"
proof -
  let ?config = "JObj [(''hosts'', JObj [(''svc'', JArr [JStr ''127.0.0.1:1'']), (''db'', JArr [])])]"
  let ?specs = "[(''svc'', [''127.0.0.1:1'']), (''db'', [])]"
  have d: "distinct (map fst ?specs)" by simp
  have b4: "optString ?config ''bind4'' = Inr []" by (simp add: optString_def jcount_def)
  have b6: "optString ?config ''bind6'' = Inr []" by (simp add: optString_def jcount_def)
  have hs: "andThen (jat_mut ?config ''hosts'') get_umap_vector_string = Inr ?specs"
    by (simp add: jat_mut_def get_umap_vector_string_def get_umap_json_def
        get_vector_string_def get_vector_json_def get_string_def)
  have bad: "\<not> (\<forall>spec\<in>set ?specs. goodGroup spec)" by (simp add: goodGroup_def)
  note inst = host_pool_construction [where readFile = "\<lambda>p. Some ''config''"
      and parse = "\<lambda>t. Some ?config" and configPath = "''routerd.json''" and garbage = 0,
      OF d refl refl b4 b6 hs]
  have fails: "\<exists>spec\<in>set ?specs. \<exists>msg. hostDiagnostic spec msg
        \<and> buildHosts 0 [] ?specs = Inl (Exit1 msg)
        \<and> RouterDMain (\<lambda>p. Some ''config'') (\<lambda>t. Some ?config) 0 ''routerd.json''
           = ([msg], Returned 1)"
    using inst by (simp only: if_not_P [OF bad])
  from d bad fails show ?thesis by (intro conjI)
qed

text \<open>
  C9. A host string with a colon is split at its last colon: \<open>Addr\<close> is what precedes it
  and \<open>Port\<close> is extracted from what follows it. \<open>a:b:80\<close> gives the address \<open>a:b\<close>
  and the port 80. A suffix that is not a number is accepted as well (here with port 0):
  no host string with a colon makes the start-up fail.
\<close>

theorem parseHost_splits_at_last_colon:
  assumes "CHR '':'' \<notin> set suffix"
  shows "parseHost garbage grp (addr @ CHR '':'' # suffix)
           = Inr \<lparr> Addr = addr, Port = extract_ushort garbage (c_str suffix) \<rparr>
       \<and> parseHost garbage grp ''a:b:80'' = Inr \<lparr> Addr = ''a:b'', Port = 80 \<rparr>
       \<and> parseHost garbage grp ''a:http'' = Inr \<lparr> Addr = ''a'', Port = 0 \<rparr>"
proof -
  have general: "parseHost garbage grp (addr @ CHR '':'' # suffix)
           = Inr \<lparr> Addr = addr, Port = extract_ushort garbage (c_str suffix) \<rparr>"
    using assms by (simp add: parseHost_def rfind_append_last hostEntry_def)
  have "extract_ushort garbage (c_str ''80'') = 80"
    by (simp add: extract_ushort_def c_str_def isspace_def isdigit_def decimal_def digit_val_def)
  then have one: "parseHost garbage grp ''a:b:80'' = Inr \<lparr> Addr = ''a:b'', Port = 80 \<rparr>"
    by (simp add: parseHost_def hostEntry_def)
  have "extract_ushort garbage (c_str ''http'') = 0"
    by (simp add: extract_ushort_def c_str_def isspace_def isdigit_def)
  then have two: "parseHost garbage grp ''a:http'' = Inr \<lparr> Addr = ''a'', Port = 0 \<rparr>"
    by (simp add: parseHost_def hostEntry_def)
  from general one two show ?thesis by simp
qed

theorem parseHost_splits_at_last_colon_witness:
  "CHR '':'' \<notin> set ''8080''
   \<and> parseHost 0 ''svc'' ''[::1]:8080'' = Inr \<lparr> Addr = ''[::1]'', Port = 8080 \<rparr>"
proof -
  have h: "CHR '':'' \<notin> set ''8080''" by simp
  have p: "extract_ushort 0 (c_str ''8080'') = 8080"
    by (simp add: extract_ushort_def c_str_def isspace_def isdigit_def decimal_def digit_val_def)
  from parseHost_splits_at_last_colon [OF h, of 0 "''svc''" "''[::1]''"] h p
  show ?thesis by simp
qed

subsection \<open>Graphs: removing a node without successors\<close>

lemma sink_removal_trancl:
  assumes sink: "\<And>b. (n, b) \<notin> E"
    and path: "(x, y) \<in> E\<^sup>+" and y: "y \<noteq> n"
  shows "(x, y) \<in> {(a, b). (a, b) \<in> E \<and> a \<noteq> n \<and> b \<noteq> n}\<^sup>+"
  using path y
proof (induction rule: trancl_induct)
  case (base y)
  with sink have "x \<noteq> n" by blast
  with base show ?case by blast
next
  case (step y z)
  from step.hyps(2) sink have yn: "y \<noteq> n" by blast
  from step.IH[OF yn] step.hyps(2) yn step.prems show ?case
    by (blast intro: trancl_into_trancl)
qed

lemma sink_removal_acyclic:
  assumes sink: "\<And>b. (n, b) \<notin> E"
  shows "acyclic {(a, b). (a, b) \<in> E \<and> a \<noteq> n \<and> b \<noteq> n} \<longleftrightarrow> acyclic E"
proof
  assume sub: "acyclic {(a, b). (a, b) \<in> E \<and> a \<noteq> n \<and> b \<noteq> n}"
  show "acyclic E"
  proof (rule acyclicI, rule allI, rule notI)
    fix x assume cyc: "(x, x) \<in> E\<^sup>+"
    then obtain z where "(x, z) \<in> E" by (meson tranclD)
    with sink have "x \<noteq> n" by blast
    from sink_removal_trancl[OF sink cyc this] sub show False
      by (simp add: acyclic_def)
  qed
next
  assume "acyclic E"
  then show "acyclic {(a, b). (a, b) \<in> E \<and> a \<noteq> n \<and> b \<noteq> n}"
    by (rule acyclic_subset) blast
qed

lemma no_sink_cyclic:
  assumes fin: "finite K" and ne: "K \<noteq> {}" and sub: "E \<subseteq> K \<times> K"
    and out: "\<And>a. a \<in> K \<Longrightarrow> \<exists>b. (a, b) \<in> E"
  shows "\<not> acyclic E"
proof
  assume ac: "acyclic E"
  from fin sub have "finite E" by (meson finite_SigmaI finite_subset)
  then have w: "wf (E\<inverse>)" using ac by (rule finite_acyclic_wf_converse)
  from ne obtain x where "x \<in> K" by blast
  with w obtain z where z: "z \<in> K" and least: "\<And>y. (y, z) \<in> E\<inverse> \<Longrightarrow> y \<notin> K"
    by (rule wfE_min) blast
  from out[OF z] obtain b where b: "(z, b) \<in> E" by blast
  with sub have "b \<in> K" by blast
  moreover from b least have "b \<notin> K" by blast
  ultimately show False by contradiction
qed

subsection \<open>Trees as relations\<close>

lemma adj_empty_outside: "k \<notin> fst ` set tree \<Longrightarrow> adj tree k = {}"
  by (simp add: adj_def map_of_eq_None_iff[THEN iffD2])

lemma adj_update: "adj (AList.update k v tree) = (adj tree)(k := set v)"
  by (rule ext) (simp add: adj_def update_conv')

lemma adj_delete: "adj (AList.delete k tree) = (adj tree)(k := {})"
  by (rule ext) (simp add: adj_def delete_conv')

lemma keys_delete: "fst ` set (AList.delete k m) = fst ` set m - {k}"
  by (induction m) auto

lemma edges_adj: "distinct (map fst tree) \<Longrightarrow> (a, b) \<in> edges tree \<longleftrightarrow> b \<in> adj tree a"
proof -
  assume d: "distinct (map fst tree)"
  have "(a, b) \<in> edges tree \<longleftrightarrow> (\<exists>s. (a, s) \<in> set tree \<and> b \<in> set s)"
    by (force simp: edges_def)
  also have "\<dots> \<longleftrightarrow> (\<exists>s. map_of tree a = Some s \<and> b \<in> set s)"
    using d by (auto dest: map_of_SomeD)
  also have "\<dots> \<longleftrightarrow> b \<in> adj tree a"
    by (simp add: adj_def split: option.splits)
  finally show ?thesis .
qed

lemma noDeps_iff:
  "distinct (map fst tree) \<Longrightarrow> n \<in> set (noDeps tree) \<longleftrightarrow> n \<in> fst ` set tree \<and> adj tree n = {}"
proof -
  assume d: "distinct (map fst tree)"
  have "n \<in> set (noDeps tree) \<longleftrightarrow> (n, []) \<in> set tree"
    by (force simp: noDeps_def)
  also have "\<dots> \<longleftrightarrow> map_of tree n = Some []"
    using d by (auto dest: map_of_SomeD)
  also have "\<dots> \<longleftrightarrow> n \<in> fst ` set tree \<and> adj tree n = {}"
    by (auto simp: adj_def map_of_eq_None_iff split: option.splits
        dest: map_of_SomeD intro: rev_image_eqI)
  finally show ?thesis .
qed

lemma noDeps_distinct: "distinct (map fst tree) \<Longrightarrow> distinct (noDeps tree)"
  unfolding noDeps_def by (induction tree) auto

subsection \<open>The check for cycles\<close>

lemma umap_at_key:
  "k \<in> fst ` set m \<Longrightarrow> \<exists>v. umap_at m k = Inr v \<and> map_of m k = Some v"
  by (cases "map_of m k") (auto simp: umap_at_def map_of_eq_None_iff)

lemma keys_update_present: "k \<in> fst ` set m \<Longrightarrow> map fst (AList.update k v m) = map fst m"
  by (simp add: update_keys)

lemma eraseFrom_effect:
  "set s \<subseteq> fst ` set tree \<Longrightarrow>
   \<exists>tree'. eraseFrom it1 tree s = Inr tree' \<and> map fst tree' = map fst tree
      \<and> (\<forall>k. adj tree' k = (if k \<in> set s then adj tree k - {it1} else adj tree k))"
proof (induction s arbitrary: tree)
  case Nil
  then show ?case by simp
next
  case (Cons it2 rest)
  from Cons.prems have k2: "it2 \<in> fst ` set tree" by simp
  from umap_at_key[OF k2] obtain v where at: "umap_at tree it2 = Inr v"
    and v: "map_of tree it2 = Some v" by blast
  let ?t1 = "AList.update it2 (removeAll it1 v) tree"
  have keys1: "map fst ?t1 = map fst tree" using k2 by (rule keys_update_present)
  have adj1: "adj ?t1 = (adj tree)(it2 := adj tree it2 - {it1})"
    using v by (simp add: adj_update adj_def)
  from Cons.prems keys1 have "set rest \<subseteq> fst ` set ?t1"
    by (metis list.set_map set_subset_Cons subset_trans)
  from Cons.IH[OF this] obtain tree'
    where r: "eraseFrom it1 ?t1 rest = Inr tree'" and keys': "map fst tree' = map fst ?t1"
      and adj': "\<forall>k. adj tree' k = (if k \<in> set rest then adj ?t1 k - {it1} else adj ?t1 k)"
    by blast
  have "eraseFrom it1 tree (it2 # rest) = Inr tree'" using at r by simp
  moreover have "map fst tree' = map fst tree" using keys' keys1 by simp
  moreover have "\<forall>k. adj tree' k = (if k \<in> set (it2 # rest) then adj tree k - {it1} else adj tree k)"
    using adj' adj1 by auto
  ultimately show ?case by blast
qed

lemma keys_eq_set: "map fst t' = map fst t \<Longrightarrow> fst ` set t' = fst ` set t"
  by (metis list.set_map)

lemma removeNode_effect:
  assumes inv: "kahnInv tree rt" and key: "it1 \<in> fst ` set tree" and sink: "adj tree it1 = {}"
  shows "\<exists>tree' rt'. removeNode (tree, rt) it1 = Inr (tree', rt')
      \<and> map fst tree' = removeAll it1 (map fst tree)
      \<and> (\<forall>k. adj tree' k = (if k = it1 then {} else adj tree k - {it1}))
      \<and> kahnInv tree' rt'"
proof -
  from inv have d: "distinct (map fst tree)"
    and closed: "\<And>a. adj tree a \<subseteq> fst ` set tree"
    and rkeys: "fst ` set rt \<subseteq> fst ` set tree"
    and mirror: "\<And>b. b \<in> fst ` set tree \<Longrightarrow> adj rt b = {a. b \<in> adj tree a}"
    by (auto simp: kahnInv_def)
  have users: "adj rt it1 = {a. it1 \<in> adj tree a}" using mirror[OF key] .
  have users_keys: "adj rt it1 \<subseteq> fst ` set tree"
    unfolding users using adj_empty_outside[of _ tree] by fastforce
  \<comment> \<open>lines 168 to 174\<close>
  have "\<exists>t1. (if umap_count rt it1 > 0
               then andThen (umap_at rt it1) (\<lambda>s.
                    andThen (eraseFrom it1 tree s) (\<lambda>tree'. Inr (tree', AList.delete it1 rt)))
               else Inr (tree, rt)) = Inr (t1, AList.delete it1 rt)
          \<and> map fst t1 = map fst tree
          \<and> (\<forall>k. adj t1 k = adj tree k - {it1})"
  proof (cases "it1 \<in> fst ` set rt")
    case True
    from umap_at_key[OF True] obtain s where at: "umap_at rt it1 = Inr s"
      and s: "map_of rt it1 = Some s" by blast
    from s have set_s: "set s = adj rt it1" by (simp add: adj_def)
    with users_keys have "set s \<subseteq> fst ` set tree" by simp
    from eraseFrom_effect[OF this, of it1] obtain t1
      where e: "eraseFrom it1 tree s = Inr t1" and k: "map fst t1 = map fst tree"
        and a: "\<forall>k. adj t1 k = (if k \<in> set s then adj tree k - {it1} else adj tree k)"
      by blast
    have "\<forall>k. adj t1 k = adj tree k - {it1}"
      using a set_s users by auto
    with True at e k show ?thesis by (simp add: umap_count_def)
  next
    case False
    then have "adj rt it1 = {}" by (rule adj_empty_outside)
    with users have "\<forall>k. adj tree k = adj tree k - {it1}" by auto
    moreover from False have "AList.delete it1 rt = rt"
      by (simp add: delete_id)
    ultimately show ?thesis using False by (simp add: umap_count_def)
  qed
  then obtain t1 where first: "(if umap_count rt it1 > 0
               then andThen (umap_at rt it1) (\<lambda>s.
                    andThen (eraseFrom it1 tree s) (\<lambda>tree'. Inr (tree', AList.delete it1 rt)))
               else Inr (tree, rt)) = Inr (t1, AList.delete it1 rt)"
    and k1: "map fst t1 = map fst tree" and a1: "\<forall>k. adj t1 k = adj tree k - {it1}"
    by blast
  let ?tree' = "AList.delete it1 t1" and ?rt' = "AList.delete it1 rt"
  have res: "removeNode (tree, rt) it1 = Inr (?tree', ?rt')"
    unfolding removeNode_def prod.case first by simp
  have keys': "map fst ?tree' = removeAll it1 (map fst tree)"
    by (simp add: delete_keys k1)
  have adj': "\<forall>k. adj ?tree' k = (if k = it1 then {} else adj tree k - {it1})"
    by (simp add: adj_delete a1)
  have kset: "fst ` set ?tree' = fst ` set tree - {it1}"
    using keys_eq_set[OF k1] by (simp add: keys_delete)
  have "kahnInv ?tree' ?rt'"
    unfolding kahnInv_def
  proof (intro conjI allI ballI)
    show "distinct (map fst ?tree')" using d by (simp add: keys' distinct_removeAll)
    show "adj ?tree' a \<subseteq> fst ` set ?tree'" for a
      using closed[of a] by (auto simp: adj' kset)
    show "fst ` set ?rt' \<subseteq> fst ` set ?tree'"
      using rkeys unfolding kset keys_delete [of it1 rt] by auto
    show "adj ?rt' b = {a. b \<in> adj ?tree' a}" if "b \<in> fst ` set ?tree'" for b
    proof -
      from that have b: "b \<in> fst ` set tree" "b \<noteq> it1" by (auto simp: kset)
      have "adj ?rt' b = adj rt b" using b(2) by (simp add: adj_delete)
      also have "\<dots> = {a. b \<in> adj tree a}" by (rule mirror[OF b(1)])
      also have "\<dots> = {a. b \<in> adj ?tree' a}" using b(2) sink by (auto simp: adj')
      finally show ?thesis .
    qed
  qed
  with res keys' adj' show ?thesis by blast
qed

lemma removeNode_acyclic:
  assumes d: "distinct (map fst tree)" and d': "distinct (map fst tree')"
    and sink: "adj tree it1 = {}"
    and adj': "\<forall>k. adj tree' k = (if k = it1 then {} else adj tree k - {it1})"
  shows "acyclic (edges tree') \<longleftrightarrow> acyclic (edges tree)"
proof -
  have pointwise: "(a, b) \<in> edges tree' \<longleftrightarrow> (a, b) \<in> edges tree \<and> a \<noteq> it1 \<and> b \<noteq> it1"
    for a b
  proof -
    from adj' have "adj tree' a = (if a = it1 then {} else adj tree a - {it1})" by blast
    then show ?thesis by (auto simp: edges_adj[OF d] edges_adj[OF d'])
  qed
  then have "edges tree' = {(a, b). (a, b) \<in> edges tree \<and> a \<noteq> it1 \<and> b \<noteq> it1}"
    by auto
  moreover have "\<And>b. (it1, b) \<notin> edges tree"
    using sink by (simp add: edges_adj[OF d])
  ultimately show ?thesis by (simp add: sink_removal_acyclic)
qed

lemma removeNodes_effect:
  "kahnInv tree rt \<Longrightarrow> distinct ns \<Longrightarrow>
   \<forall>n\<in>set ns. n \<in> fst ` set tree \<and> adj tree n = {} \<Longrightarrow>
   \<exists>tree' rt'. removeNodes (tree, rt) ns = Inr (tree', rt') \<and> kahnInv tree' rt'
      \<and> (acyclic (edges tree') \<longleftrightarrow> acyclic (edges tree))"
proof (induction ns arbitrary: tree rt)
  case Nil
  then show ?case by simp
next
  case (Cons n ns)
  from Cons.prems(3) have key: "n \<in> fst ` set tree" and sink: "adj tree n = {}" by simp_all
  from removeNode_effect[OF Cons.prems(1) key sink] obtain t1 r1
    where step: "removeNode (tree, rt) n = Inr (t1, r1)"
      and keys1: "map fst t1 = removeAll n (map fst tree)"
      and adj1: "\<forall>k. adj t1 k = (if k = n then {} else adj tree k - {n})"
      and inv1: "kahnInv t1 r1"
    by blast
  from Cons.prems(1) inv1 have d: "distinct (map fst tree)" and d1: "distinct (map fst t1)"
    by (simp_all add: kahnInv_def)
  have ac1: "acyclic (edges t1) \<longleftrightarrow> acyclic (edges tree)"
    by (rule removeNode_acyclic[OF d d1 sink adj1])
  have kset1: "fst ` set t1 = fst ` set tree - {n}"
    using keys1 by (metis list.set_map set_removeAll)
  have rest: "\<forall>m\<in>set ns. m \<in> fst ` set t1 \<and> adj t1 m = {}"
    using Cons.prems(2,3) adj1 by (auto simp: kset1)
  from Cons.prems(2) have dns: "distinct ns" by simp
  from Cons.IH[OF inv1 dns rest] obtain tree' rt'
    where r: "removeNodes (t1, r1) ns = Inr (tree', rt')" and inv': "kahnInv tree' rt'"
      and ac': "acyclic (edges tree') \<longleftrightarrow> acyclic (edges t1)"
    by blast
  have "removeNodes (tree, rt) (n # ns) = Inr (tree', rt')" using step r by simp
  with inv' ac' ac1 show ?case by blast
qed

lemma edges_Nil: "edges [] = {}"
  by (simp add: edges_def)

lemma kahn_stuck_cyclic:
  assumes inv: "kahnInv tree rt" and ne: "tree \<noteq> []" and none: "noDeps tree = []"
  shows "\<not> acyclic (edges tree)"
proof (rule no_sink_cyclic[where K = "fst ` set tree"])
  from inv have d: "distinct (map fst tree)"
    and closed: "\<And>a. adj tree a \<subseteq> fst ` set tree"
    by (auto simp: kahnInv_def)
  show "finite (fst ` set tree)" by simp
  show "fst ` set tree \<noteq> {}" using ne by simp
  show "edges tree \<subseteq> fst ` set tree \<times> fst ` set tree"
  proof
    fix e assume e: "e \<in> edges tree"
    obtain a b where ab: "e = (a, b)" by (cases e)
    from e ab have b: "b \<in> adj tree a" by (simp add: edges_adj[OF d])
    with closed[of a] have "b \<in> fst ` set tree" by blast
    moreover from b adj_empty_outside[of a tree] have "a \<in> fst ` set tree" by blast
    ultimately show "e \<in> fst ` set tree \<times> fst ` set tree" by (simp add: ab)
  qed
  show "\<exists>b. (a, b) \<in> edges tree" if a: "a \<in> fst ` set tree" for a
  proof -
    from none have "a \<notin> set (noDeps tree)" by simp
    with a have "adj tree a \<noteq> {}" by (simp add: noDeps_iff[OF d])
    then show ?thesis by (auto simp: edges_adj[OF d])
  qed
qed

lemma kahn_correct_aux:
  "kahnInv (fst st) (snd st) \<Longrightarrow>
   kahn gname st = (if acyclic (edges (fst st)) then Inr ([], [])
                    else Inl (Exit1 (gname @ '': cycle in dependencies'')))"
proof (induction gname st rule: kahn.induct)
  case (1 gname tree reverseTree)
  from "1.prems" have inv: "kahnInv tree reverseTree" by simp
  then have d: "distinct (map fst tree)" by (simp add: kahnInv_def)
  show ?case
  proof (cases "tree = []")
    case True
    with inv have "reverseTree = []" by (simp add: kahnInv_def)
    with True show ?thesis by (simp add: edges_Nil acyclic_def)
  next
    case ne: False
    show ?thesis
    proof (cases "noDeps tree = []")
      case True
      from kahn_stuck_cyclic[OF inv ne True] ne True show ?thesis by simp
    next
      case some: False
      have sinks: "\<forall>n\<in>set (noDeps tree). n \<in> fst ` set tree \<and> adj tree n = {}"
        by (simp add: noDeps_iff[OF d])
      from removeNodes_effect[OF inv noDeps_distinct[OF d] sinks] obtain tree' rt'
        where r: "removeNodes (tree, reverseTree) (noDeps tree) = Inr (tree', rt')"
          and inv': "kahnInv tree' rt'"
          and ac: "acyclic (edges tree') \<longleftrightarrow> acyclic (edges tree)"
        by blast
      from "1.IH"[OF ne some r] inv'
      have "kahn gname (tree', rt') = (if acyclic (edges tree') then Inr ([], [])
                    else Inl (Exit1 (gname @ '': cycle in dependencies'')))"
        by simp
      with ne some r ac show ?thesis by simp
    qed
  qed
qed

lemma kahn_correct:
  "kahnInv tree rt \<Longrightarrow>
   kahn gname (tree, rt) = (if acyclic (edges tree) then Inr ([], [])
                    else Inl (Exit1 (gname @ '': cycle in dependencies'')))"
  using kahn_correct_aux[of "(tree, rt)" gname] by simp

subsection \<open>Inserting the dependencies\<close>

lemma set_insert_set [simp]: "set (set_insert x s) = insert x (set s)"
  by (auto simp: set_insert_def)

lemma tree_insert_keys:
  "map fst (tree_insert a b t) = (if a \<in> fst ` set t then map fst t else map fst t @ [a])"
  by (auto simp: tree_insert_def update_keys map_of_eq_None_iff split: option.splits
      intro: rev_image_eqI dest: map_of_SomeD)

lemma tree_insert_adj: "adj (tree_insert a b t) = (adj t)(a := insert b (adj t a))"
proof (cases "map_of t a")
  case None
  have "map_of (t @ [(a, [b])]) x = ((map_of t)(a \<mapsto> [b])) x" for x
    using None by (cases "map_of t x") (auto simp: map_add_def)
  then have "map_of (t @ [(a, [b])]) = (map_of t)(a \<mapsto> [b])" by (rule ext)
  with None show ?thesis
    by (intro ext) (simp add: tree_insert_def adj_def)
next
  case (Some s)
  then show ?thesis
    by (intro ext) (simp add: tree_insert_def adj_def update_conv')
qed

lemma tree_insert_distinct:
  "distinct (map fst t) \<Longrightarrow> distinct (map fst (tree_insert a b t))"
  by (simp add: tree_insert_keys)

lemma umap_count_pos [simp]: "umap_count m k > 0 \<longleftrightarrow> k \<in> fst ` set m"
  by (simp add: umap_count_def)

lemma umap_count_zero [simp]: "umap_count m k = 0 \<longleftrightarrow> k \<notin> fst ` set m"
  by (simp add: umap_count_def)

lemma addDep_Inr:
  assumes "addDep gname cg (tree, rt) dep = Inr (tree', rt')"
  shows "\<exists>a b. depOf dep = [(a, b)] \<and> a \<noteq> b
           \<and> a \<in> fst ` set (Services cg) \<and> b \<in> fst ` set (Services cg)
           \<and> tree' = tree_insert a b tree \<and> rt' = tree_insert b a rt"
proof -
  from assms obtain a where a: "andThen (jat_const dep ''a'') get_string = Inr a"
    by (cases "andThen (jat_const dep ''a'') get_string") (simp_all add: addDep_def)
  from assms a obtain b where b: "andThen (jat_const dep ''b'') get_string = Inr b"
    by (cases "andThen (jat_const dep ''b'') get_string") (simp_all add: addDep_def)
  from assms a b have "a \<noteq> b \<and> a \<in> fst ` set (Services cg) \<and> b \<in> fst ` set (Services cg)
           \<and> tree' = tree_insert a b tree \<and> rt' = tree_insert b a rt"
    by (simp add: addDep_def split: if_splits)
  moreover from a b have "depOf dep = [(a, b)]" by (simp add: depOf_def)
  ultimately show ?thesis by blast
qed

lemma depsInv_step:
  assumes inv: "depsInv names tree rt" and ab: "a \<noteq> b" and a: "a \<in> set names" and b: "b \<in> set names"
  shows "depsInv names (tree_insert a b tree) (tree_insert b a rt)"
proof -
  from inv have keys: "map fst tree = names" and dr: "distinct (map fst rt)"
    and closed: "\<And>x. adj tree x \<subseteq> set names"
    and rkeys: "fst ` set rt \<subseteq> set names"
    and mirror: "\<And>y. adj rt y = {x. y \<in> adj tree x}"
    and nonempty: "\<And>y. y \<in> fst ` set rt \<Longrightarrow> adj rt y \<noteq> {}"
    and noself: "\<And>x. x \<notin> adj tree x"
    by (auto simp: depsInv_def)
  from keys a have ak: "a \<in> fst ` set tree" by (metis list.set_map)
  have "set (map fst (tree_insert b a rt)) = insert b (set (map fst rt))"
    by (auto simp: tree_insert_keys)
  then have rk: "fst ` set (tree_insert b a rt) = insert b (fst ` set rt)" by simp
  show ?thesis
    unfolding depsInv_def
  proof (intro conjI allI impI)
    show "map fst (tree_insert a b tree) = names" using ak keys by (simp add: tree_insert_keys)
    show "distinct (map fst (tree_insert b a rt))" using dr by (rule tree_insert_distinct)
    show "adj (tree_insert a b tree) x \<subseteq> set names" for x
      using closed[of x] b by (auto simp: tree_insert_adj)
    show "fst ` set (tree_insert b a rt) \<subseteq> set names" using rkeys b by (simp add: rk)
    show "adj (tree_insert b a rt) y = {x. y \<in> adj (tree_insert a b tree) x}" for y
      using mirror[of y] by (auto simp: tree_insert_adj)
    show "adj (tree_insert b a rt) y \<noteq> {}" if "y \<in> fst ` set (tree_insert b a rt)" for y
      using that nonempty[of y] by (auto simp: tree_insert_adj rk)
    show "x \<notin> adj (tree_insert a b tree) x" for x
      using noself[of x] ab by (auto simp: tree_insert_adj)
  qed
qed

lemma addDeps_inv:
  "addDeps gname cg (tree, rt) deps = Inr (tree', rt') \<Longrightarrow> depsInv names tree rt \<Longrightarrow>
   set names = fst ` set (Services cg) \<Longrightarrow>
   depsInv names tree' rt' \<and> (\<forall>a. adj tree' a = adj tree a \<union> {b. (a, b) \<in> depRel deps})
   \<and> length (concat (map depOf deps)) = length deps"
proof (induction deps arbitrary: tree rt)
  case Nil
  then show ?case by (simp add: depRel_def)
next
  case (Cons dep deps)
  from Cons.prems(1) obtain t1 r1 where s1: "addDep gname cg (tree, rt) dep = Inr (t1, r1)"
    and s2: "addDeps gname cg (t1, r1) deps = Inr (tree', rt')"
    by (auto simp: andThen_Inr_iff)
  from addDep_Inr[OF s1] obtain a b where d: "depOf dep = [(a, b)]" and ab: "a \<noteq> b"
    and a: "a \<in> fst ` set (Services cg)" and b: "b \<in> fst ` set (Services cg)"
    and t1: "t1 = tree_insert a b tree" and r1: "r1 = tree_insert b a rt"
    by blast
  have inv1: "depsInv names t1 r1"
    unfolding t1 r1 using Cons.prems(2) ab a b Cons.prems(3) by (intro depsInv_step) simp_all
  from Cons.IH[OF s2 inv1 Cons.prems(3)]
  have inv': "depsInv names tree' rt'"
    and adj': "\<forall>x. adj tree' x = adj t1 x \<union> {y. (x, y) \<in> depRel deps}"
    and len: "length (concat (map depOf deps)) = length deps"
    by simp_all
  have "\<forall>x. adj tree' x = adj tree x \<union> {y. (x, y) \<in> depRel (dep # deps)}"
    using adj' d by (auto simp: t1 tree_insert_adj depRel_def)
  with inv' len d show ?case by simp
qed

lemma depsInv_kahnInv: "depsInv names tree rt \<Longrightarrow> distinct names \<Longrightarrow> kahnInv tree rt"
  unfolding depsInv_def kahnInv_def by (metis list.set_map)

subsection \<open>Reading the services\<close>

lemma emptyTree_simps [simp]:
  "emptyTree [] = []" "emptyTree (ns @ [n]) = emptyTree ns @ [(n, [])]"
  "map fst (emptyTree ns) = ns"
  by (simp_all add: emptyTree_def comp_def)

lemma emptyTree_keys [simp]: "fst ` set (emptyTree ns) = set ns"
  by (metis emptyTree_simps(3) list.set_map)

lemma emplace_fresh: "k \<notin> fst ` set m \<Longrightarrow> emplace k v m = m @ [(k, v)]"
  by (simp add: emplace_def)

lemma addService_Inr:
  assumes "addService gname hosts (tree, cg) s = Inr (tree', cg')"
  shows "\<exists>service. normService s = Inr service
           \<and> HostsFrom service \<in> fst ` set hosts
           \<and> Name service \<notin> fst ` set (Services cg)
           \<and> tree' = emplace (Name service) [] tree
           \<and> cg' = cg \<lparr> Services := emplace (Name service) service (Services cg) \<rparr>"
proof -
  from assms obtain service where n: "normService s = Inr service"
    by (cases "normService s") (simp_all add: addService_def)
  from assms n have "HostsFrom service \<in> fst ` set hosts
           \<and> Name service \<notin> fst ` set (Services cg)
           \<and> tree' = emplace (Name service) [] tree
           \<and> cg' = cg \<lparr> Services := emplace (Name service) service (Services cg) \<rparr>"
    by (simp add: addService_def split: if_splits)
  with n show ?thesis by blast
qed

lemma svcInv_step:
  assumes inv: "svcInv tree cg" and fresh: "n \<notin> fst ` set (Services cg)"
  shows "svcInv (emplace n [] tree) (cg \<lparr> Services := emplace n service (Services cg) \<rparr>)"
proof -
  from inv have t: "tree = emptyTree (map fst (Services cg))"
    and d: "distinct (map fst (Services cg))" and e: "Tree cg = []" "ReverseTree cg = []"
    by (simp_all add: svcInv_def)
  from fresh have ft: "n \<notin> fst ` set tree" by (simp add: t)
  have e1: "emplace n [] tree = tree @ [(n, [])]" by (rule emplace_fresh[OF ft])
  have e2: "emplace n service (Services cg) = Services cg @ [(n, service)]"
    by (rule emplace_fresh[OF fresh])
  show ?thesis
    unfolding svcInv_def e1 e2 using t d e fresh by simp
qed

lemma addServices_inv:
  "addServices gname hosts (tree, cg) services = Inr (tree', cg') \<Longrightarrow> svcInv tree cg \<Longrightarrow>
   svcInv tree' cg'"
proof (induction services arbitrary: tree cg)
  case Nil
  then show ?case by simp
next
  case (Cons s services)
  from Cons.prems(1) obtain t1 c1 where s1: "addService gname hosts (tree, cg) s = Inr (t1, c1)"
    and s2: "addServices gname hosts (t1, c1) services = Inr (tree', cg')"
    by (auto simp: andThen_Inr_iff)
  from addService_Inr[OF s1] Cons.prems(2) have "svcInv t1 c1"
    by (auto intro: svcInv_step)
  from Cons.IH[OF s2 this] show ?case .
qed

lemma svcInv_initial: "svcInv [] emptyGraph"
  by (simp add: svcInv_def emptyGraph_def)

lemma adj_all_empty [simp]: "adj (emptyTree names) a = {}"
  by (induction names) (simp_all add: adj_def emptyTree_def)

lemma adj_Nil [simp]: "adj [] a = {}"
  by (simp add: adj_def)

lemma svcInv_depsInv: "svcInv tree cg \<Longrightarrow> depsInv (map fst (Services cg)) tree []"
  by (simp add: svcInv_def depsInv_def)

lemma addDeps_fold:
  "addDeps gname cg st deps = Inr st' \<Longrightarrow>
   st' = foldl (\<lambda>fr ab. (tree_insert (fst ab) (snd ab) (fst fr),
                         tree_insert (snd ab) (fst ab) (snd fr))) st (concat (map depOf deps))"
proof (induction deps arbitrary: st)
  case Nil
  then show ?case by simp
next
  case (Cons dep deps)
  obtain tree rt where st: "st = (tree, rt)" by (cases st)
  from Cons.prems obtain t1 r1 where s1: "addDep gname cg (tree, rt) dep = Inr (t1, r1)"
    and s2: "addDeps gname cg (t1, r1) deps = Inr st'"
    by (auto simp: andThen_Inr_iff st)
  from addDep_Inr[OF s1] obtain a b where "depOf dep = [(a, b)]"
    "t1 = tree_insert a b tree" "r1 = tree_insert b a rt" by blast
  with Cons.IH[OF s2] show ?case by (simp add: st)
qed

subsection \<open>Compiling a graph\<close>

text \<open>The compilation of a graph, with the local \<open>compiledGraph'\<close> unfolded.\<close>

lemma compileGraph_unfold:
  "compileGraph hosts gname data =
     andThen (andThen (jat_const data ''services'') get_vector_json) (\<lambda>services.
     andThen (addServices gname hosts ([], emptyGraph) services) (\<lambda>st.
       case st of (tree, compiledGraph) \<Rightarrow>
         if jcount data ''deps'' > 0
         then
           andThen (andThen (jat_const data ''deps'') get_vector_json) (\<lambda>deps.
           andThen (addDeps gname compiledGraph (tree, []) deps) (\<lambda>st'.
             case st' of (tree', reverseTree) \<Rightarrow>
               andThen (kahn gname (tree', reverseTree)) (\<lambda>_.
                 Inr (compiledGraph \<lparr> Tree := tree', ReverseTree := reverseTree \<rparr>))))
         else Inr (compiledGraph \<lparr> Tree := tree \<rparr>)))"
  unfolding compileGraph_def Let_def ..

text \<open>What holds once the services and the dependencies of a graph have been read.\<close>

lemma deps_stage:
  assumes built: "addServices gname hosts ([], emptyGraph) services = Inr (tree, cg)"
    and inserted: "addDeps gname cg (tree, []) deps = Inr (tree', reverseTree)"
  shows "kahnInv tree' reverseTree"
    and "depsInv (map fst (Services cg)) tree' reverseTree"
    and "edges tree' = depRel deps"
    and "(tree', reverseTree) = snapshot (map fst (Services cg)) (concat (map depOf deps))"
proof -
  from addServices_inv[OF built svcInv_initial] have sv: "svcInv tree cg" .
  then have d: "distinct (map fst (Services cg))"
    and t: "tree = emptyTree (map fst (Services cg))" by (simp_all add: svcInv_def)
  from addDeps_inv[OF inserted svcInv_depsInv[OF sv]]
  have inv: "depsInv (map fst (Services cg)) tree' reverseTree"
    and adj': "\<forall>a. adj tree' a = adj tree a \<union> {b. (a, b) \<in> depRel deps}"
    by simp_all
  show "depsInv (map fst (Services cg)) tree' reverseTree" by (rule inv)
  show k: "kahnInv tree' reverseTree" by (rule depsInv_kahnInv[OF inv d])
  then have d': "distinct (map fst tree')" by (simp add: kahnInv_def)
  have "(a, b) \<in> edges tree' \<longleftrightarrow> (a, b) \<in> depRel deps" for a b
    using adj' by (simp add: edges_adj[OF d'] t)
  then show "edges tree' = depRel deps" by auto
  show "(tree', reverseTree) = snapshot (map fst (Services cg)) (concat (map depOf deps))"
    using addDeps_fold[OF inserted] by (simp add: snapshot_def t)
qed

lemma compileGraph_with_deps:
  assumes "andThen (jat_const data ''services'') get_vector_json = Inr services"
    and "addServices gname hosts ([], emptyGraph) services = Inr (tree, cg)"
    and "jcount data ''deps'' > 0"
    and "andThen (jat_const data ''deps'') get_vector_json = Inr deps"
    and "addDeps gname cg (tree, []) deps = Inr (tree', reverseTree)"
  shows "compileGraph hosts gname data =
           andThen (kahn gname (tree', reverseTree))
             (\<lambda>_. Inr (cg \<lparr> Tree := tree', ReverseTree := reverseTree \<rparr>))"
  using assms by (simp add: compileGraph_unfold)

text \<open>
  C1. For a graph with a \<open>deps\<close> list whose services and dependencies have been read
  without failure: the relation held by \<open>tree\<close> is the dependency relation of \<open>deps\<close>;
  the compilation of the graph ends with the line \<open>cycle in dependencies\<close> on
  \<^verbatim>\<open>std::cerr\<close> and \<^verbatim>\<open>return 1\<close> exactly when that relation has a cycle; and
  when it has none, the loop of lines 151 to 178 ends with both working maps empty and
  the graph is compiled.
\<close>

theorem cycle_detection:
  assumes svcs: "andThen (jat_const data ''services'') get_vector_json = Inr services"
    and built: "addServices gname hosts ([], emptyGraph) services = Inr (tree, cg)"
    and hasdeps: "jcount data ''deps'' > 0"
    and deps: "andThen (jat_const data ''deps'') get_vector_json = Inr deps"
    and inserted: "addDeps gname cg (tree, []) deps = Inr (tree', reverseTree)"
  shows "edges tree' = depRel deps
       \<and> ((compileGraph hosts gname data = Inl (Exit1 (gname @ '': cycle in dependencies'')))
            \<longleftrightarrow> (\<exists>x. (x, x) \<in> (depRel deps)\<^sup>+))
       \<and> ((\<forall>x. (x, x) \<notin> (depRel deps)\<^sup>+) \<longrightarrow>
            kahn gname (tree', reverseTree) = Inr ([], [])
            \<and> compileGraph hosts gname data
                = Inr (cg \<lparr> Tree := tree', ReverseTree := reverseTree \<rparr>))"
proof -
  note stage = deps_stage[OF built inserted]
  have e: "edges tree' = depRel deps" by (rule stage(3))
  have k: "kahn gname (tree', reverseTree) =
             (if acyclic (depRel deps) then Inr ([], [])
              else Inl (Exit1 (gname @ '': cycle in dependencies'')))"
    using kahn_correct[OF stage(1), of gname] by (simp add: e)
  have c: "compileGraph hosts gname data =
             andThen (kahn gname (tree', reverseTree))
               (\<lambda>_. Inr (cg \<lparr> Tree := tree', ReverseTree := reverseTree \<rparr>))"
    by (rule compileGraph_with_deps[OF svcs built hasdeps deps inserted])
  have ac: "acyclic (depRel deps) \<longleftrightarrow> (\<forall>x. (x, x) \<notin> (depRel deps)\<^sup>+)"
    by (simp add: acyclic_def)
  show ?thesis
  proof (cases "acyclic (depRel deps)")
    case True
    with k c ac e show ?thesis by simp
  next
    case False
    with k c ac e show ?thesis by simp
  qed
qed

lemmas json_access_defs =
  jat_const_def jat_mut_def jcount_def get_string_def get_vector_json_def get_umap_json_def
  get_vector_string_def get_umap_vector_string_def

lemmas compile_defs =
  addService_def normService_def addDep_def umap_count_def emplace_def tree_insert_def
  set_insert_def emptyGraph_def

theorem cycle_detection_witness:
  "compileGraph [(''a'', [\<lparr> Addr = ''h'', Port = 1 \<rparr>]), (''b'', [\<lparr> Addr = ''h'', Port = 2 \<rparr>])] ''g''
     (JObj [(''services'', JArr [JStr ''a'', JStr ''b'']),
            (''deps'', JArr [JObj [(''a'', JStr ''a''), (''b'', JStr ''b'')],
                             JObj [(''a'', JStr ''b''), (''b'', JStr ''a'')]])])
     = Inl (Exit1 ''g: cycle in dependencies'')
   \<and> (\<exists>x. (x, x) \<in> (depRel [JObj [(''a'', JStr ''a''), (''b'', JStr ''b'')],
                               JObj [(''a'', JStr ''b''), (''b'', JStr ''a'')]])\<^sup>+)"
proof -
  let ?hosts = "[(''a'', [\<lparr> Addr = ''h'', Port = 1 \<rparr>]), (''b'', [\<lparr> Addr = ''h'', Port = 2 \<rparr>])]"
  let ?deps = "[JObj [(''a'', JStr ''a''), (''b'', JStr ''b'')],
                JObj [(''a'', JStr ''b''), (''b'', JStr ''a'')]]"
  let ?data = "JObj [(''services'', JArr [JStr ''a'', JStr ''b'']), (''deps'', JArr ?deps)]"
  let ?cg = "\<lparr> Services = [(''a'', \<lparr> Name = ''a'', HostsFrom = ''a'', Path = None \<rparr>),
                             (''b'', \<lparr> Name = ''b'', HostsFrom = ''b'', Path = None \<rparr>)],
               Tree = [], ReverseTree = [] \<rparr>"
  have svcs: "andThen (jat_const ?data ''services'') get_vector_json = Inr [JStr ''a'', JStr ''b'']"
    by (simp add: json_access_defs)
  have built: "addServices ''g'' ?hosts ([], emptyGraph) [JStr ''a'', JStr ''b'']
                 = Inr ([(''a'', []), (''b'', [])], ?cg)"
    by (simp add: compile_defs)
  have hasdeps: "jcount ?data ''deps'' > 0" by (simp add: jcount_def)
  have deps: "andThen (jat_const ?data ''deps'') get_vector_json = Inr ?deps"
    by (simp add: json_access_defs)
  have inserted: "addDeps ''g'' ?cg ([(''a'', []), (''b'', [])], []) ?deps
                    = Inr ([(''a'', [''b'']), (''b'', [''a''])], [(''b'', [''a'']), (''a'', [''b''])])"
    by (simp add: compile_defs json_access_defs)
  have stuck: "kahn ''g'' ([(''a'', [''b'']), (''b'', [''a''])], [(''b'', [''a'']), (''a'', [''b''])])
                 = Inl (Exit1 ''g: cycle in dependencies'')"
    by (simp add: noDeps_def)
  have fails: "compileGraph ?hosts ''g'' ?data = Inl (Exit1 ''g: cycle in dependencies'')"
    using svcs built hasdeps deps inserted stuck by (simp add: compileGraph_unfold)
  from cycle_detection [OF svcs built hasdeps deps inserted] fails
  show ?thesis by simp
qed

lemma adj_entry: "distinct (map fst t) \<Longrightarrow> (a, s) \<in> set t \<Longrightarrow> adj t a = set s"
  by (simp add: adj_def)

lemma depsInv_entries:
  assumes inv: "depsInv names tree rt" and d: "distinct names"
  shows "fst ` set tree = set names"
    and "fst ` set rt \<subseteq> set names"
    and "\<forall>it\<in>set tree. set (snd it) \<subseteq> set names"
    and "\<forall>it\<in>set rt. set (snd it) \<subseteq> set names"
    and "\<forall>it\<in>set tree. fst it \<notin> set (snd it)"
proof -
  from inv have keys: "map fst tree = names" and dr: "distinct (map fst rt)"
    and closed: "\<And>x. adj tree x \<subseteq> set names"
    and rkeys: "fst ` set rt \<subseteq> set names"
    and mirror: "\<And>y. adj rt y = {x. y \<in> adj tree x}"
    and noself: "\<And>x. x \<notin> adj tree x"
    by (auto simp: depsInv_def)
  from keys d have dt: "distinct (map fst tree)" by simp
  show k: "fst ` set tree = set names" using keys by (metis list.set_map)
  show "fst ` set rt \<subseteq> set names" by (rule rkeys)
  show "\<forall>it\<in>set tree. set (snd it) \<subseteq> set names"
  proof
    fix it assume "it \<in> set tree"
    then have "adj tree (fst it) = set (snd it)" using adj_entry[OF dt, of "fst it" "snd it"] by simp
    with closed[of "fst it"] show "set (snd it) \<subseteq> set names" by simp
  qed
  show "\<forall>it\<in>set rt. set (snd it) \<subseteq> set names"
  proof
    fix it assume "it \<in> set rt"
    then have "adj rt (fst it) = set (snd it)" using adj_entry[OF dr, of "fst it" "snd it"] by simp
    then have "set (snd it) = {x. fst it \<in> adj tree x}" using mirror[of "fst it"] by simp
    also have "\<dots> \<subseteq> fst ` set tree" using adj_empty_outside[of _ tree] by fastforce
    finally show "set (snd it) \<subseteq> set names" using k by simp
  qed
  show "\<forall>it\<in>set tree. fst it \<notin> set (snd it)"
  proof
    fix it assume "it \<in> set tree"
    then have "adj tree (fst it) = set (snd it)" using adj_entry[OF dt, of "fst it" "snd it"] by simp
    with noself[of "fst it"] show "fst it \<notin> set (snd it)" by simp
  qed
qed

text \<open>The stages that a successful compilation of a graph went through.\<close>

lemma compileGraph_Inr_services:
  assumes ok: "compileGraph hosts gname data = Inr compiled"
  shows "\<exists>services tree cg.
    andThen (jat_const data ''services'') get_vector_json = Inr services
    \<and> addServices gname hosts ([], emptyGraph) services = Inr (tree, cg)
    \<and> andThen (if jcount data ''deps'' > 0
           then
             andThen (andThen (jat_const data ''deps'') get_vector_json) (\<lambda>deps.
             andThen (addDeps gname cg (tree, []) deps) (\<lambda>st'.
               case st' of (tree', reverseTree) \<Rightarrow>
                 andThen (kahn gname (tree', reverseTree)) (\<lambda>_.
                   Inr (cg \<lparr> Tree := tree', ReverseTree := reverseTree \<rparr>))))
           else Inr (cg \<lparr> Tree := tree \<rparr>)) Inr = Inr compiled"
proof -
  from ok obtain services where s: "andThen (jat_const data ''services'') get_vector_json = Inr services"
    by (cases "andThen (jat_const data ''services'') get_vector_json") (simp_all add: compileGraph_unfold)
  from ok s obtain tree cg where b: "addServices gname hosts ([], emptyGraph) services = Inr (tree, cg)"
    by (cases "addServices gname hosts ([], emptyGraph) services") (auto simp: compileGraph_unfold)
  from ok s b have "andThen (if jcount data ''deps'' > 0
           then
             andThen (andThen (jat_const data ''deps'') get_vector_json) (\<lambda>deps.
             andThen (addDeps gname cg (tree, []) deps) (\<lambda>st'.
               case st' of (tree', reverseTree) \<Rightarrow>
                 andThen (kahn gname (tree', reverseTree)) (\<lambda>_.
                   Inr (cg \<lparr> Tree := tree', ReverseTree := reverseTree \<rparr>))))
           else Inr (cg \<lparr> Tree := tree \<rparr>)) Inr = Inr compiled"
    by (simp add: compileGraph_unfold andThen_def split: sum.splits)
  with s b show ?thesis by (intro exI conjI)
qed

lemma compileGraph_Inr_deps:
  assumes ok: "compileGraph hosts gname data = Inr compiled" and h: "jcount data ''deps'' > 0"
  shows "\<exists>services tree cg deps tree' reverseTree rest.
    andThen (jat_const data ''services'') get_vector_json = Inr services
    \<and> addServices gname hosts ([], emptyGraph) services = Inr (tree, cg)
    \<and> andThen (jat_const data ''deps'') get_vector_json = Inr deps
    \<and> addDeps gname cg (tree, []) deps = Inr (tree', reverseTree)
    \<and> kahn gname (tree', reverseTree) = Inr rest
    \<and> compiled = cg \<lparr> Tree := tree', ReverseTree := reverseTree \<rparr>"
proof -
  from compileGraph_Inr_services[OF ok] h obtain services tree cg where
    s: "andThen (jat_const data ''services'') get_vector_json = Inr services" and
    b: "addServices gname hosts ([], emptyGraph) services = Inr (tree, cg)" and
    rest: "andThen (andThen (jat_const data ''deps'') get_vector_json) (\<lambda>deps.
             andThen (addDeps gname cg (tree, []) deps) (\<lambda>st'.
               case st' of (tree', reverseTree) \<Rightarrow>
                 andThen (kahn gname (tree', reverseTree)) (\<lambda>_.
                   Inr (cg \<lparr> Tree := tree', ReverseTree := reverseTree \<rparr>)))) = Inr compiled"
    by (auto simp: andThen_Inr_iff)
  from rest obtain deps where d: "andThen (jat_const data ''deps'') get_vector_json = Inr deps"
    and r1: "andThen (addDeps gname cg (tree, []) deps) (\<lambda>st'.
             case st' of (tree', reverseTree) \<Rightarrow>
               andThen (kahn gname (tree', reverseTree)) (\<lambda>_.
                 Inr (cg \<lparr> Tree := tree', ReverseTree := reverseTree \<rparr>))) = Inr compiled"
    by (cases "andThen (jat_const data ''deps'') get_vector_json") simp_all
  from r1 obtain tree' reverseTree
    where i: "addDeps gname cg (tree, []) deps = Inr (tree', reverseTree)"
      and r2: "andThen (kahn gname (tree', reverseTree)) (\<lambda>_.
                 Inr (cg \<lparr> Tree := tree', ReverseTree := reverseTree \<rparr>)) = Inr compiled"
    by (cases "addDeps gname cg (tree, []) deps") auto
  from r2 obtain rest where k: "kahn gname (tree', reverseTree) = Inr rest"
    and c: "compiled = cg \<lparr> Tree := tree', ReverseTree := reverseTree \<rparr>"
    by (cases "kahn gname (tree', reverseTree)") auto
  from s b d i k c show ?thesis by (intro exI conjI)
qed

lemma compileGraph_Inr_no_deps:
  assumes ok: "compileGraph hosts gname data = Inr compiled" and h: "\<not> jcount data ''deps'' > 0"
  shows "\<exists>services tree cg.
    andThen (jat_const data ''services'') get_vector_json = Inr services
    \<and> addServices gname hosts ([], emptyGraph) services = Inr (tree, cg)
    \<and> compiled = cg \<lparr> Tree := tree \<rparr>"
proof -
  from compileGraph_Inr_services[OF ok] h obtain services tree cg where
    s: "andThen (jat_const data ''services'') get_vector_json = Inr services" and
    b: "addServices gname hosts ([], emptyGraph) services = Inr (tree, cg)" and
    c: "compiled = cg \<lparr> Tree := tree \<rparr>"
    by auto
  then show ?thesis by (intro exI conjI)
qed

text \<open>
  C3. In the graph that a successful compilation produces, every key of \<open>Tree\<close> and of
  \<open>ReverseTree\<close> and every name in one of their sets is a key of \<open>Services\<close>, no name
  is in its own set in \<open>Tree\<close>, and the relation of \<open>Tree\<close> has no cycle.
\<close>

theorem compiled_graph_invariants:
  assumes ok: "compileGraph hosts gname data = Inr compiled"
  shows "fst ` set (Tree compiled) \<subseteq> fst ` set (Services compiled)
       \<and> fst ` set (ReverseTree compiled) \<subseteq> fst ` set (Services compiled)
       \<and> (\<forall>it\<in>set (Tree compiled). set (snd it) \<subseteq> fst ` set (Services compiled))
       \<and> (\<forall>it\<in>set (ReverseTree compiled). set (snd it) \<subseteq> fst ` set (Services compiled))
       \<and> (\<forall>it\<in>set (Tree compiled). fst it \<notin> set (snd it))
       \<and> acyclic (edges (Tree compiled))"
proof -
  have names: "set (map fst (Services cg)) = fst ` set (Services cg)" for cg :: TRouterDGraph
    by simp
  show ?thesis
  proof (cases "jcount data ''deps'' > 0")
    case True
    from compileGraph_Inr_deps[OF ok True] obtain services tree cg deps tree' reverseTree rest
      where b: "addServices gname hosts ([], emptyGraph) services = Inr (tree, cg)"
        and i: "addDeps gname cg (tree, []) deps = Inr (tree', reverseTree)"
        and k: "kahn gname (tree', reverseTree) = Inr rest"
        and c: "compiled = cg \<lparr> Tree := tree', ReverseTree := reverseTree \<rparr>"
      by blast
    from addServices_inv[OF b svcInv_initial] have d: "distinct (map fst (Services cg))"
      by (simp add: svcInv_def)
    note stage = deps_stage[OF b i]
    from kahn_correct[OF stage(1), of gname] k have ac: "acyclic (edges tree')"
      by (simp split: if_splits)
    from depsInv_entries[OF stage(2) d] ac show ?thesis
      unfolding c names[of cg] by simp
  next
    case False
    from compileGraph_Inr_no_deps[OF ok False] obtain services tree cg
      where b: "addServices gname hosts ([], emptyGraph) services = Inr (tree, cg)"
        and c: "compiled = cg \<lparr> Tree := tree \<rparr>"
      by blast
    from addServices_inv[OF b svcInv_initial] have sv: "svcInv tree cg" .
    then have d: "distinct (map fst (Services cg))" by (simp add: svcInv_def)
    from sv have r: "ReverseTree cg = []" by (simp add: svcInv_def)
    have "edges tree = {}"
      using depsInv_kahnInv[OF svcInv_depsInv[OF sv] d] sv
      by (auto simp: edges_adj kahnInv_def svcInv_def)
    then have ac: "acyclic (edges tree)" by (simp add: acyclic_def)
    from depsInv_entries[OF svcInv_depsInv[OF sv] d] ac r show ?thesis
      unfolding c names[of cg] by simp
  qed
qed

theorem compiled_graph_invariants_witness:
  "compileGraph [(''a'', [\<lparr> Addr = ''h'', Port = 1 \<rparr>]), (''b'', [\<lparr> Addr = ''h'', Port = 2 \<rparr>]),
                 (''c'', [\<lparr> Addr = ''h'', Port = 3 \<rparr>])] ''chain''
     (JObj [(''services'', JArr [JStr ''a'', JStr ''b'', JStr ''c'']),
            (''deps'', JArr [JObj [(''a'', JStr ''a''), (''b'', JStr ''b'')],
                             JObj [(''a'', JStr ''b''), (''b'', JStr ''c'')]])])
     = Inr \<lparr> Services = [(''a'', \<lparr> Name = ''a'', HostsFrom = ''a'', Path = None \<rparr>),
                          (''b'', \<lparr> Name = ''b'', HostsFrom = ''b'', Path = None \<rparr>),
                          (''c'', \<lparr> Name = ''c'', HostsFrom = ''c'', Path = None \<rparr>)],
             Tree = [(''a'', [''b'']), (''b'', [''c'']), (''c'', [])],
             ReverseTree = [(''b'', [''a'']), (''c'', [''b''])] \<rparr>
   \<and> acyclic (edges [(''a'', [''b'']), (''b'', [''c'']), (''c'', [])])"
proof -
  let ?hosts = "[(''a'', [\<lparr> Addr = ''h'', Port = 1 \<rparr>]), (''b'', [\<lparr> Addr = ''h'', Port = 2 \<rparr>]),
                 (''c'', [\<lparr> Addr = ''h'', Port = 3 \<rparr>])]"
  let ?deps = "[JObj [(''a'', JStr ''a''), (''b'', JStr ''b'')],
                JObj [(''a'', JStr ''b''), (''b'', JStr ''c'')]]"
  let ?data = "JObj [(''services'', JArr [JStr ''a'', JStr ''b'', JStr ''c'']), (''deps'', JArr ?deps)]"
  let ?cg = "\<lparr> Services = [(''a'', \<lparr> Name = ''a'', HostsFrom = ''a'', Path = None \<rparr>),
                          (''b'', \<lparr> Name = ''b'', HostsFrom = ''b'', Path = None \<rparr>),
                          (''c'', \<lparr> Name = ''c'', HostsFrom = ''c'', Path = None \<rparr>)],
               Tree = [], ReverseTree = [] \<rparr>"
  have built: "addServices ''chain'' ?hosts ([], emptyGraph) [JStr ''a'', JStr ''b'', JStr ''c'']
                 = Inr ([(''a'', []), (''b'', []), (''c'', [])], ?cg)"
    by (simp add: compile_defs)
  have inserted: "addDeps ''chain'' ?cg ([(''a'', []), (''b'', []), (''c'', [])], []) ?deps
                    = Inr ([(''a'', [''b'']), (''b'', [''c'']), (''c'', [])],
                           [(''b'', [''a'']), (''c'', [''b''])])"
    by (simp add: compile_defs json_access_defs)
  have loop: "kahn ''chain'' ([(''a'', [''b'']), (''b'', [''c'']), (''c'', [])],
                           [(''b'', [''a'']), (''c'', [''b''])]) = Inr ([], [])"
    by (simp add: noDeps_def removeNode_def umap_count_def umap_at_def)
  have ok: "compileGraph ?hosts ''chain'' ?data
              = Inr (?cg \<lparr> Tree := [(''a'', [''b'']), (''b'', [''c'']), (''c'', [])],
                             ReverseTree := [(''b'', [''a'']), (''c'', [''b''])] \<rparr>)"
    using built inserted loop by (simp add: compileGraph_unfold json_access_defs)
  from compiled_graph_invariants [OF ok] ok show ?thesis by simp
qed

text \<open>
  C2. When a graph with a \<open>deps\<close> list is compiled, the \<open>Tree\<close> and \<open>ReverseTree\<close> that
  the graph retains are the adjacency as it stood when the dependencies had been inserted:
  every service with an empty forward set, then one insertion in each direction per
  dependency. They are what \<open>addDeps\<close> returned, and the loop that checks for cycles,
  which runs on the locals and leaves them empty, has not changed them.
\<close>

theorem retained_trees_are_the_snapshot:
  assumes ok: "compileGraph hosts gname data = Inr compiled"
    and hasdeps: "jcount data ''deps'' > 0"
    and deps: "andThen (jat_const data ''deps'') get_vector_json = Inr deps"
  shows "(Tree compiled, ReverseTree compiled)
           = snapshot (map fst (Services compiled)) (concat (map depOf deps))
       \<and> (\<forall>a. adj (Tree compiled) a = {b. (a, b) \<in> depRel deps})
       \<and> (\<forall>b. adj (ReverseTree compiled) b = {a. (a, b) \<in> depRel deps})
       \<and> (\<exists>services tree cg.
             andThen (jat_const data ''services'') get_vector_json = Inr services
             \<and> addServices gname hosts ([], emptyGraph) services = Inr (tree, cg)
             \<and> addDeps gname cg (tree, []) deps = Inr (Tree compiled, ReverseTree compiled)
             \<and> kahn gname (Tree compiled, ReverseTree compiled) = Inr ([], []))"
proof -
  from compileGraph_Inr_deps[OF ok hasdeps] deps
  obtain services tree cg tree' reverseTree rest
    where s: "andThen (jat_const data ''services'') get_vector_json = Inr services"
      and b: "addServices gname hosts ([], emptyGraph) services = Inr (tree, cg)"
      and i: "addDeps gname cg (tree, []) deps = Inr (tree', reverseTree)"
      and k: "kahn gname (tree', reverseTree) = Inr rest"
      and c: "compiled = cg \<lparr> Tree := tree', ReverseTree := reverseTree \<rparr>"
    by auto
  have t: "Tree compiled = tree'" and r: "ReverseTree compiled = reverseTree"
    and sv: "Services compiled = Services cg"
    by (simp_all add: c)
  note stage = deps_stage[OF b i]
  from kahn_correct[OF stage(1), of gname] k
  have loop: "kahn gname (tree', reverseTree) = Inr ([], [])"
    by (simp split: if_splits)
  from stage(1) have d': "distinct (map fst tree')" by (simp add: kahnInv_def)
  have fwd: "adj tree' a = {b. (a, b) \<in> depRel deps}" for a
    using stage(3) edges_adj[OF d', of a] by auto
  from stage(2) have mirror: "adj reverseTree b = {a. b \<in> adj tree' a}" for b
    by (simp add: depsInv_def)
  have bwd: "adj reverseTree b = {a. (a, b) \<in> depRel deps}" for b
    unfolding mirror fwd by simp
  have snap: "(tree', reverseTree) = snapshot (map fst (Services cg)) (concat (map depOf deps))"
    by (rule stage(4))
  have stages: "\<exists>services tree cg.
             andThen (jat_const data ''services'') get_vector_json = Inr services
             \<and> addServices gname hosts ([], emptyGraph) services = Inr (tree, cg)
             \<and> addDeps gname cg (tree, []) deps = Inr (tree', reverseTree)
             \<and> kahn gname (tree', reverseTree) = Inr ([], [])"
    using s b i loop by (intro exI conjI)
  from snap fwd bwd stages show ?thesis unfolding t r sv by simp
qed

theorem retained_trees_are_the_snapshot_witness:
  "compileGraph [(''a'', [\<lparr> Addr = ''h'', Port = 1 \<rparr>]), (''b'', [\<lparr> Addr = ''h'', Port = 2 \<rparr>])] ''g''
     (JObj [(''services'', JArr [JStr ''a'', JStr ''b'']),
            (''deps'', JArr [JObj [(''a'', JStr ''a''), (''b'', JStr ''b'')]])])
     = Inr \<lparr> Services = [(''a'', \<lparr> Name = ''a'', HostsFrom = ''a'', Path = None \<rparr>),
                          (''b'', \<lparr> Name = ''b'', HostsFrom = ''b'', Path = None \<rparr>)],
             Tree = [(''a'', [''b'']), (''b'', [])],
             ReverseTree = [(''b'', [''a''])] \<rparr>
   \<and> ([(''a'', [''b'']), (''b'', [])], [(''b'', [''a''])])
       = snapshot [''a'', ''b''] (concat (map depOf [JObj [(''a'', JStr ''a''), (''b'', JStr ''b'')]]))
   \<and> kahn ''g'' ([(''a'', [''b'']), (''b'', [])], [(''b'', [''a''])]) = Inr ([], [])"
proof -
  let ?hosts = "[(''a'', [\<lparr> Addr = ''h'', Port = 1 \<rparr>]), (''b'', [\<lparr> Addr = ''h'', Port = 2 \<rparr>])]"
  let ?deps = "[JObj [(''a'', JStr ''a''), (''b'', JStr ''b'')]]"
  let ?data = "JObj [(''services'', JArr [JStr ''a'', JStr ''b'']), (''deps'', JArr ?deps)]"
  let ?cg = "\<lparr> Services = [(''a'', \<lparr> Name = ''a'', HostsFrom = ''a'', Path = None \<rparr>),
                          (''b'', \<lparr> Name = ''b'', HostsFrom = ''b'', Path = None \<rparr>)],
               Tree = [], ReverseTree = [] \<rparr>"
  have built: "addServices ''g'' ?hosts ([], emptyGraph) [JStr ''a'', JStr ''b'']
                 = Inr ([(''a'', []), (''b'', [])], ?cg)"
    by (simp add: compile_defs)
  have inserted: "addDeps ''g'' ?cg ([(''a'', []), (''b'', [])], []) ?deps
                    = Inr ([(''a'', [''b'']), (''b'', [])], [(''b'', [''a''])])"
    by (simp add: compile_defs json_access_defs)
  have loop: "kahn ''g'' ([(''a'', [''b'']), (''b'', [])], [(''b'', [''a''])]) = Inr ([], [])"
    by (simp add: noDeps_def removeNode_def umap_count_def umap_at_def)
  have ok: "compileGraph ?hosts ''g'' ?data
              = Inr (?cg \<lparr> Tree := [(''a'', [''b'']), (''b'', [])],
                             ReverseTree := [(''b'', [''a''])] \<rparr>)"
    using built inserted loop by (simp add: compileGraph_unfold json_access_defs)
  have hasdeps: "jcount ?data ''deps'' > 0" by (simp add: jcount_def)
  have deps: "andThen (jat_const ?data ''deps'') get_vector_json = Inr ?deps"
    by (simp add: json_access_defs)
  from retained_trees_are_the_snapshot [OF ok hasdeps deps] ok loop show ?thesis by simp
qed

subsection \<open>Single entries of a graph\<close>

lemma addServices_append:
  "addServices gname hosts st (xs @ ys) =
     andThen (addServices gname hosts st xs) (\<lambda>st'. addServices gname hosts st' ys)"
proof (induction xs arbitrary: st)
  case Nil
  then show ?case by simp
next
  case (Cons x xs)
  then show ?case by (cases "addService gname hosts st x") simp_all
qed

lemma addDeps_append:
  "addDeps gname cg st (xs @ ys) =
     andThen (addDeps gname cg st xs) (\<lambda>st'. addDeps gname cg st' ys)"
proof (induction xs arbitrary: st)
  case Nil
  then show ?case by simp
next
  case (Cons x xs)
  then show ?case by (cases "addDep gname cg st x") simp_all
qed

lemma compileGraph_service_failure:
  assumes "andThen (jat_const data ''services'') get_vector_json = Inr (before @ s # after)"
    and "addServices gname hosts ([], emptyGraph) before = Inr st"
    and "addService gname hosts st s = Inl f"
  shows "compileGraph hosts gname data = Inl f"
  using assms by (simp add: compileGraph_unfold addServices_append)

lemma compileGraph_dep_failure:
  assumes "andThen (jat_const data ''services'') get_vector_json = Inr services"
    and "addServices gname hosts ([], emptyGraph) services = Inr (tree0, cg)"
    and "jcount data ''deps'' > 0"
    and "andThen (jat_const data ''deps'') get_vector_json = Inr (before @ dep # after)"
    and "addDeps gname cg (tree0, []) before = Inr st"
    and "addDep gname cg st dep = Inl f"
  shows "compileGraph hosts gname data = Inl f"
  using assms by (simp add: compileGraph_unfold addDeps_append)

lemma normService_object:
  assumes "map_of kvs ''name'' = Some (JStr name)"
    and "map_of kvs ''hosts_from'' = map_option JStr hf"
    and "map_of kvs ''path'' = map_option JStr path"
  shows "normService (JObj kvs)
           = Inr \<lparr> Name = name, HostsFrom = (case hf of Some h \<Rightarrow> h | None \<Rightarrow> name), Path = path \<rparr>"
proof -
  have c1: "jcount (JObj kvs) ''hosts_from'' > 0 \<longleftrightarrow> hf \<noteq> None"
    using assms(2) by (cases hf) (auto simp: jcount_def map_of_eq_None_iff[symmetric])
  have c2: "jcount (JObj kvs) ''path'' > 0 \<longleftrightarrow> path \<noteq> None"
    using assms(3) by (cases path) (auto simp: jcount_def map_of_eq_None_iff[symmetric])
  show ?thesis
    using assms c1 c2
    by (cases hf; cases path) (simp_all add: normService_def jat_const_def get_string_def)
qed

text \<open>
  C5. A bare string \<open>n\<close> becomes the service with name \<open>n\<close> and host group \<open>n\<close>; an
  object takes its host group from \<open>hosts_from\<close> when it has one and from \<open>name\<close>
  otherwise. For the entry \<open>s\<close> of a graph, read after the entries before it: when its
  host group is no key of the host pool the compilation ends with \<open>unknown hosts group\<close>;
  when its name is already a service of the graph the compilation fails as well, with
  \<open>service already present\<close> unless the host group is unknown (the host group is
  tested first); otherwise the service is added, with an empty set in \<open>tree\<close>.
\<close>

theorem service_entry:
  assumes svcs: "andThen (jat_const data ''services'') get_vector_json = Inr (before @ s # after)"
    and prefix: "addServices gname hosts ([], emptyGraph) before = Inr (tree, cg)"
    and norm: "normService s = Inr service"
  shows "normService (JStr n) = Inr \<lparr> Name = n, HostsFrom = n, Path = None \<rparr>
       \<and> (map_of kvs ''name'' = Some (JStr name)
            \<and> map_of kvs ''hosts_from'' = map_option JStr hf
            \<and> map_of kvs ''path'' = map_option JStr path \<longrightarrow>
          normService (JObj kvs)
            = Inr \<lparr> Name = name, HostsFrom = (case hf of Some h \<Rightarrow> h | None \<Rightarrow> name),
                    Path = path \<rparr>)
       \<and> (HostsFrom service \<notin> fst ` set hosts \<longrightarrow>
            compileGraph hosts gname data
              = Inl (Exit1 (gname @ '': unknown hosts group: '' @ HostsFrom service)))
       \<and> (HostsFrom service \<in> fst ` set hosts \<and> Name service \<in> fst ` set (Services cg) \<longrightarrow>
            compileGraph hosts gname data
              = Inl (Exit1 (gname @ '': service already present: '' @ Name service)))
       \<and> (Name service \<in> fst ` set (Services cg) \<longrightarrow>
            (\<exists>msg. compileGraph hosts gname data = Inl (Exit1 msg)))
       \<and> (HostsFrom service \<in> fst ` set hosts \<and> Name service \<notin> fst ` set (Services cg) \<longrightarrow>
            addServices gname hosts ([], emptyGraph) (before @ [s])
              = Inr (tree @ [(Name service, [])],
                     cg \<lparr> Services := Services cg @ [(Name service, service)] \<rparr>))"
proof -
  have bare: "normService (JStr n) = Inr \<lparr> Name = n, HostsFrom = n, Path = None \<rparr>"
    by (simp add: normService_def)
  have object: "map_of kvs ''name'' = Some (JStr name)
            \<and> map_of kvs ''hosts_from'' = map_option JStr hf
            \<and> map_of kvs ''path'' = map_option JStr path \<longrightarrow>
          normService (JObj kvs)
            = Inr \<lparr> Name = name, HostsFrom = (case hf of Some h \<Rightarrow> h | None \<Rightarrow> name),
                    Path = path \<rparr>"
    by (simp add: normService_object)
  have unknown: "compileGraph hosts gname data
              = Inl (Exit1 (gname @ '': unknown hosts group: '' @ HostsFrom service))"
    if "HostsFrom service \<notin> fst ` set hosts"
  proof (rule compileGraph_service_failure[OF svcs prefix])
    show "addService gname hosts (tree, cg) s
            = Inl (Exit1 (gname @ '': unknown hosts group: '' @ HostsFrom service))"
      using norm that by (simp add: addService_def)
  qed
  have duplicate: "compileGraph hosts gname data
              = Inl (Exit1 (gname @ '': service already present: '' @ Name service))"
    if "HostsFrom service \<in> fst ` set hosts" "Name service \<in> fst ` set (Services cg)"
  proof (rule compileGraph_service_failure[OF svcs prefix])
    show "addService gname hosts (tree, cg) s
            = Inl (Exit1 (gname @ '': service already present: '' @ Name service))"
      using norm that by (simp add: addService_def)
  qed
  have added: "addServices gname hosts ([], emptyGraph) (before @ [s])
              = Inr (tree @ [(Name service, [])],
                     cg \<lparr> Services := Services cg @ [(Name service, service)] \<rparr>)"
    if h: "HostsFrom service \<in> fst ` set hosts" and fresh: "Name service \<notin> fst ` set (Services cg)"
  proof -
    from addServices_inv[OF prefix svcInv_initial]
    have "tree = emptyTree (map fst (Services cg))" by (simp add: svcInv_def)
    with fresh have ft: "Name service \<notin> fst ` set tree" by simp
    have "addService gname hosts (tree, cg) s
            = Inr (tree @ [(Name service, [])],
                   cg \<lparr> Services := Services cg @ [(Name service, service)] \<rparr>)"
      using norm h fresh by (simp add: addService_def emplace_fresh[OF ft] emplace_fresh[OF fresh])
    with prefix show ?thesis by (simp add: addServices_append)
  qed
  have either: "\<exists>msg. compileGraph hosts gname data = Inl (Exit1 msg)"
    if "Name service \<in> fst ` set (Services cg)"
    using unknown duplicate that by (cases "HostsFrom service \<in> fst ` set hosts") blast+
  from bare object unknown duplicate either added show ?thesis by blast
qed

theorem service_entry_witness:
  "normService (JObj [(''name'', JStr ''svc''), (''hosts_from'', JStr ''pool'')])
     = Inr \<lparr> Name = ''svc'', HostsFrom = ''pool'', Path = None \<rparr>
   \<and> ''pool'' \<in> fst ` set [(''svc'', [\<lparr> Addr = ''h'', Port = 1 \<rparr>]), (''pool'', [\<lparr> Addr = ''h'', Port = 2 \<rparr>])]
   \<and> compileGraph [(''svc'', [\<lparr> Addr = ''h'', Port = 1 \<rparr>]), (''pool'', [\<lparr> Addr = ''h'', Port = 2 \<rparr>])] ''g''
       (JObj [(''services'',
               JArr [JStr ''svc'', JObj [(''name'', JStr ''svc''), (''hosts_from'', JStr ''pool'')]])])
     = Inl (Exit1 ''g: service already present: svc'')"
proof -
  let ?hosts = "[(''svc'', [\<lparr> Addr = ''h'', Port = 1 \<rparr>]), (''pool'', [\<lparr> Addr = ''h'', Port = 2 \<rparr>])]"
  let ?s = "JObj [(''name'', JStr ''svc''), (''hosts_from'', JStr ''pool'')]"
  let ?data = "JObj [(''services'', JArr [JStr ''svc'', ?s])]"
  let ?service = "\<lparr> Name = ''svc'', HostsFrom = ''pool'', Path = None \<rparr>"
  let ?cg = "\<lparr> Services = [(''svc'', \<lparr> Name = ''svc'', HostsFrom = ''svc'', Path = None \<rparr>)],
               Tree = [], ReverseTree = [] \<rparr>"
  have svcs: "andThen (jat_const ?data ''services'') get_vector_json = Inr ([JStr ''svc''] @ ?s # [])"
    by (simp add: json_access_defs)
  have prefix: "addServices ''g'' ?hosts ([], emptyGraph) [JStr ''svc''] = Inr ([(''svc'', [])], ?cg)"
    by (simp add: compile_defs)
  have norm: "normService ?s = Inr ?service"
    by (simp add: normService_def json_access_defs)
  have known: "HostsFrom ?service \<in> fst ` set ?hosts" by simp
  have present: "Name ?service \<in> fst ` set (Services ?cg)" by simp
  from service_entry [OF svcs prefix norm] known present norm show ?thesis by simp
qed

text \<open>
  C4. For the entry \<open>{a, b}\<close> of \<open>deps\<close>, read after the entries before it: when \<open>a\<close>
  equals \<open>b\<close> the compilation ends with \<open>depends on itself\<close>; otherwise, when \<open>a\<close> or
  \<open>b\<close> is no service of the graph, with \<open>unknown service in dependency\<close> (naming \<open>a\<close>
  when both are unknown); otherwise \<open>b\<close> is inserted into the set of \<open>a\<close> in \<open>tree\<close> and
  \<open>a\<close> into the set of \<open>b\<close> in \<open>reverseTree\<close>.
\<close>

theorem dependency_entry:
  assumes svcs: "andThen (jat_const data ''services'') get_vector_json = Inr services"
    and built: "addServices gname hosts ([], emptyGraph) services = Inr (tree0, cg)"
    and hasdeps: "jcount data ''deps'' > 0"
    and deps: "andThen (jat_const data ''deps'') get_vector_json = Inr (before @ dep # after)"
    and prefix: "addDeps gname cg (tree0, []) before = Inr (tree, reverseTree)"
    and a: "andThen (jat_const dep ''a'') get_string = Inr a"
    and b: "andThen (jat_const dep ''b'') get_string = Inr b"
  shows "(a = b \<longrightarrow>
            compileGraph hosts gname data = Inl (Exit1 (gname @ '': '' @ a @ '' depends on itself'')))
       \<and> (a \<noteq> b \<and> a \<notin> fst ` set (Services cg) \<longrightarrow>
            compileGraph hosts gname data
              = Inl (Exit1 (gname @ '': unknown service in dependency: '' @ a)))
       \<and> (a \<noteq> b \<and> a \<in> fst ` set (Services cg) \<and> b \<notin> fst ` set (Services cg) \<longrightarrow>
            compileGraph hosts gname data
              = Inl (Exit1 (gname @ '': unknown service in dependency: '' @ b)))
       \<and> (a \<noteq> b \<and> a \<in> fst ` set (Services cg) \<and> b \<in> fst ` set (Services cg) \<longrightarrow>
            addDeps gname cg (tree0, []) (before @ [dep])
              = Inr (tree_insert a b tree, tree_insert b a reverseTree)
            \<and> adj (tree_insert a b tree) = (adj tree)(a := insert b (adj tree a))
            \<and> adj (tree_insert b a reverseTree)
                = (adj reverseTree)(b := insert a (adj reverseTree b)))"
proof -
  note fails = compileGraph_dep_failure[OF svcs built hasdeps deps prefix]
  have self: "compileGraph hosts gname data
                = Inl (Exit1 (gname @ '': '' @ a @ '' depends on itself''))" if "a = b"
    by (rule fails) (use a b that in \<open>simp add: addDep_def\<close>)
  have unknown_a: "compileGraph hosts gname data
              = Inl (Exit1 (gname @ '': unknown service in dependency: '' @ a))"
    if "a \<noteq> b" "a \<notin> fst ` set (Services cg)"
    by (rule fails) (use a b that in \<open>simp add: addDep_def\<close>)
  have unknown_b: "compileGraph hosts gname data
              = Inl (Exit1 (gname @ '': unknown service in dependency: '' @ b))"
    if "a \<noteq> b" "a \<in> fst ` set (Services cg)" "b \<notin> fst ` set (Services cg)"
    by (rule fails) (use a b that in \<open>simp add: addDep_def\<close>)
  have inserted: "addDeps gname cg (tree0, []) (before @ [dep])
              = Inr (tree_insert a b tree, tree_insert b a reverseTree)"
    if "a \<noteq> b" "a \<in> fst ` set (Services cg)" "b \<in> fst ` set (Services cg)"
    using prefix a b that by (simp add: addDeps_append addDep_def)
  from self unknown_a unknown_b inserted show ?thesis
    by (simp add: tree_insert_adj)
qed

theorem dependency_entry_witness:
  "andThen (jat_const (JObj [(''a'', JStr ''a''), (''b'', JStr ''a'')]) ''a'') get_string = Inr ''a''
   \<and> andThen (jat_const (JObj [(''a'', JStr ''a''), (''b'', JStr ''a'')]) ''b'') get_string = Inr ''a''
   \<and> compileGraph [(''a'', [\<lparr> Addr = ''h'', Port = 1 \<rparr>])] ''g''
       (JObj [(''services'', JArr [JStr ''a'']),
              (''deps'', JArr [JObj [(''a'', JStr ''a''), (''b'', JStr ''a'')]])])
     = Inl (Exit1 ''g: a depends on itself'')"
proof -
  let ?hosts = "[(''a'', [\<lparr> Addr = ''h'', Port = 1 \<rparr>])]"
  let ?dep = "JObj [(''a'', JStr ''a''), (''b'', JStr ''a'')]"
  let ?data = "JObj [(''services'', JArr [JStr ''a'']), (''deps'', JArr [?dep])]"
  let ?cg = "\<lparr> Services = [(''a'', \<lparr> Name = ''a'', HostsFrom = ''a'', Path = None \<rparr>)],
               Tree = [], ReverseTree = [] \<rparr>"
  have svcs: "andThen (jat_const ?data ''services'') get_vector_json = Inr [JStr ''a'']"
    by (simp add: json_access_defs)
  have built: "addServices ''g'' ?hosts ([], emptyGraph) [JStr ''a''] = Inr ([(''a'', [])], ?cg)"
    by (simp add: compile_defs)
  have hasdeps: "jcount ?data ''deps'' > 0" by (simp add: jcount_def)
  have deps: "andThen (jat_const ?data ''deps'') get_vector_json = Inr ([] @ ?dep # [])"
    by (simp add: json_access_defs)
  have prefix: "addDeps ''g'' ?cg ([(''a'', [])], []) [] = Inr ([(''a'', [])], [])" by simp
  have a: "andThen (jat_const ?dep ''a'') get_string = Inr ''a''" by (simp add: json_access_defs)
  have b: "andThen (jat_const ?dep ''b'') get_string = Inr ''a''" by (simp add: json_access_defs)
  from dependency_entry [OF svcs built hasdeps deps prefix a b] a b show ?thesis by simp
qed

subsection \<open>From a graph to RouterDMain\<close>

text \<open>A failure in one graph ends RouterDMain: the line is printed and 1 is returned.\<close>

lemma compileGraphs_failure:
  "compileGraphs hosts graphs before = Inr graphs' \<Longrightarrow> compileGraph hosts gname data = Inl f \<Longrightarrow>
   compileGraphs hosts graphs (before @ (gname, data) # after) = Inl f"
proof (induction before arbitrary: graphs)
  case Nil
  then show ?case by simp
next
  case (Cons g gs)
  obtain gname' data' where g: "g = (gname', data')" by (cases g)
  from Cons.prems(1) obtain cg where cg: "compileGraph hosts gname' data' = Inr cg"
    and rest: "compileGraphs hosts (emplace gname' \<lparr> Hosts = hosts, Graph = cg \<rparr> graphs) gs
                 = Inr graphs'"
    by (cases "compileGraph hosts gname' data'") (simp_all add: g)
  from Cons.IH[OF rest Cons.prems(2)] cg show ?case by (simp add: g)
qed

lemma RouterDMain_graph_failure:
  assumes "readFile configPath = Some text" and "parse text = Some config"
    and "optString config ''bind4'' = Inr bind4" and "optString config ''bind6'' = Inr bind6"
    and "andThen (jat_mut config ''hosts'') get_umap_vector_string = Inr specs"
    and "buildHosts garbage [] specs = Inr hosts"
    and "andThen (jat_mut config ''graphs'') get_umap_json = Inr (before @ (gname, data) # after)"
    and "compileGraphs hosts [] before = Inr graphs'"
    and "compileGraph hosts gname data = Inl (Exit1 msg)"
  shows "RouterDMain readFile parse garbage configPath = ([msg], Returned 1)"
proof -
  from compileGraphs_failure[OF assms(8,9)]
  have "compileGraphs hosts [] (before @ (gname, data) # after) = Inl (Exit1 msg)" .
  with assms(3-7) have "startup garbage config = Inl (Exit1 msg)"
    by (simp add: startup_def)
  with assms(1,2) show ?thesis by (simp add: RouterDMain_parsed)
qed

subsection \<open>Routes and the configuration file\<close>

lemma compileGraphs_keys:
  "compileGraphs hosts graphs gs = Inr graphs' \<Longrightarrow>
   fst ` set graphs' = fst ` set graphs \<union> fst ` set gs"
proof (induction gs arbitrary: graphs)
  case Nil
  then show ?case by simp
next
  case (Cons g gs)
  obtain gname data where g: "g = (gname, data)" by (cases g)
  from Cons.prems obtain cg where
    rest: "compileGraphs hosts (emplace gname \<lparr> Hosts = hosts, Graph = cg \<rparr> graphs) gs = Inr graphs'"
    by (cases "compileGraph hosts gname data") (simp_all add: g)
  have "fst ` set (emplace gname \<lparr> Hosts = hosts, Graph = cg \<rparr> graphs) = insert gname (fst ` set graphs)"
    by (auto simp: emplace_def)
  with Cons.IH[OF rest] show ?case by (auto simp: g)
qed

lemma addRoutes_undeclared:
  "\<forall>route\<in>set routes. \<exists>r g. andThen (jat_const route ''r'') get_string = Inr r
        \<and> andThen (jat_const route ''g'') get_string = Inr g \<Longrightarrow>
   \<exists>route\<in>set routes. \<exists>g. andThen (jat_const route ''g'') get_string = Inr g
        \<and> g \<notin> fst ` set graphs \<Longrightarrow>
   addRoutes graphs router routes = Inl (Thrown std_out_of_range)"
proof (induction routes arbitrary: router)
  case Nil
  then show ?case by simp
next
  case (Cons route routes)
  from Cons.prems(1) obtain r g where r: "andThen (jat_const route ''r'') get_string = Inr r"
    and g: "andThen (jat_const route ''g'') get_string = Inr g" by auto
  show ?case
  proof (cases "g \<in> fst ` set graphs")
    case False
    then have "umap_at graphs g = Inl (Thrown std_out_of_range)"
      by (simp add: umap_at_def map_of_eq_None_iff[THEN iffD2])
    with r g show ?thesis by (simp add: addRoute_def)
  next
    case True
    from umap_at_key[OF True] obtain h where h: "umap_at graphs g = Inr h" by blast
    from True g Cons.prems(2) have later: "\<exists>route\<in>set routes. \<exists>g.
        andThen (jat_const route ''g'') get_string = Inr g \<and> g \<notin> fst ` set graphs"
      by auto
    from Cons.prems(1) have shaped: "\<forall>route\<in>set routes. \<exists>r g.
        andThen (jat_const route ''r'') get_string = Inr r
        \<and> andThen (jat_const route ''g'') get_string = Inr g"
      by simp
    from Cons.IH[OF shaped later, of "router @ [(r, h)]"] r g h show ?thesis
      by (simp add: addRoute_def)
  qed
qed

text \<open>
  C6 (as the code has it). For a configuration that is read, whose hosts and graphs are
  compiled, and whose routes are objects with strings \<open>r\<close> and \<open>g\<close>: when a route names
  a graph that is not declared under \<open>graphs\<close>, the lookup \<^verbatim>\<open>graphs.at\<close> throws
  \<^verbatim>\<open>std::out_of_range\<close>, which leaves RouterDMain: nothing is written to
  \<^verbatim>\<open>std::cerr\<close> and no code is returned.
\<close>

theorem undeclared_graph_in_route:
  assumes opened: "readFile configPath = Some text" and parsed: "parse text = Some config"
    and bind4: "optString config ''bind4'' = Inr bind4"
    and bind6: "optString config ''bind6'' = Inr bind6"
    and specs: "andThen (jat_mut config ''hosts'') get_umap_vector_string = Inr specs"
    and hosts: "buildHosts garbage [] specs = Inr hosts"
    and gs: "andThen (jat_mut config ''graphs'') get_umap_json = Inr gs"
    and graphs: "compileGraphs hosts [] gs = Inr graphs"
    and routes: "andThen (jat_mut config ''routes'') get_vector_json = Inr routes"
    and shaped: "\<forall>route\<in>set routes. \<exists>r g. andThen (jat_const route ''r'') get_string = Inr r
        \<and> andThen (jat_const route ''g'') get_string = Inr g"
    and undeclared: "\<exists>route\<in>set routes. \<exists>g. andThen (jat_const route ''g'') get_string = Inr g
        \<and> g \<notin> fst ` set gs"
  shows "RouterDMain readFile parse garbage configPath = ([], Uncaught std_out_of_range)"
proof -
  from compileGraphs_keys[OF graphs] have "fst ` set graphs = fst ` set gs" by simp
  with undeclared have "\<exists>route\<in>set routes. \<exists>g.
      andThen (jat_const route ''g'') get_string = Inr g \<and> g \<notin> fst ` set graphs"
    by simp
  from addRoutes_undeclared[OF shaped this, of "[]"]
  have "addRoutes graphs [] routes = Inl (Thrown std_out_of_range)" .
  with bind4 bind6 specs hosts gs graphs routes
  have "startup garbage config = Inl (Thrown std_out_of_range)"
    by (simp add: startup_def)
  with opened parsed show ?thesis by (simp add: RouterDMain_parsed)
qed

lemma exampleConfig_stages:
  "optString exampleConfig ''bind4'' = Inr []"
  "optString exampleConfig ''bind6'' = Inr []"
  "andThen (jat_mut exampleConfig ''hosts'') get_umap_vector_string = Inr [(''svc'', [''127.0.0.1:1''])]"
  "andThen (jat_mut exampleConfig ''graphs'') get_umap_json
     = Inr [(''g'', JObj [(''services'', JArr [JStr ''svc''])])]"
  "andThen (jat_mut exampleConfig ''routes'') get_vector_json
     = Inr [JObj [(''r'', JStr ''/x''), (''g'', JStr ''h'')]]"
  by (simp_all add: exampleConfig_def optString_def json_access_defs)

lemma example_hosts:
  "buildHosts 0 [] [(''svc'', [''127.0.0.1:1''])] = Inr [(''svc'', [\<lparr> Addr = ''127.0.0.1'', Port = 1 \<rparr>])]"
  by (simp add: hosts_index_def parseHost_def hostEntry_def extract_ushort_def c_str_def
      isspace_def isdigit_def decimal_def digit_val_def)

lemma example_graphs:
  "compileGraphs [(''svc'', [\<lparr> Addr = ''127.0.0.1'', Port = 1 \<rparr>])] []
     [(''g'', JObj [(''services'', JArr [JStr ''svc''])])]
   = Inr [(''g'', \<lparr> Hosts = [(''svc'', [\<lparr> Addr = ''127.0.0.1'', Port = 1 \<rparr>])],
                    Graph = \<lparr> Services = [(''svc'', \<lparr> Name = ''svc'', HostsFrom = ''svc'', Path = None \<rparr>)],
                              Tree = [(''svc'', [])], ReverseTree = [] \<rparr> \<rparr>)]"
  by (simp add: compileGraph_unfold compile_defs json_access_defs)

lemma example_routes:
  "addRoutes [(''g'', h)] [] [JObj [(''r'', JStr ''/x''), (''g'', JStr ''h'')]]
     = Inl (Thrown std_out_of_range)"
  by (simp add: addRoute_def umap_at_def json_access_defs)

text \<open>
  The configuration of the first scenario, with the route pointing to the graph \<open>h\<close>
  that is not declared: RouterDMain does not return 1.
\<close>

theorem undeclared_graph_in_route_counterexample:
  "RouterDMain exampleFile exampleParse 0 ''routerd.json'' = ([], Uncaught std_out_of_range)
   \<and> snd (RouterDMain exampleFile exampleParse 0 ''routerd.json'') \<noteq> Returned 1"
proof -
  have "startup 0 exampleConfig = Inl (Thrown std_out_of_range)"
    unfolding startup_def
    by (simp only: exampleConfig_stages example_hosts example_graphs example_routes andThen_simps)
  then have "RouterDMain exampleFile exampleParse 0 ''routerd.json''
               = ([], Uncaught std_out_of_range)"
    by (simp add: RouterDMain_def ParseConfig_def exampleFile_def exampleParse_def)
  then show ?thesis by simp
qed

theorem undeclared_graph_in_route_witness:
  "exampleFile ''routerd.json'' = Some exampleText
   \<and> exampleParse exampleText = Some exampleConfig
   \<and> ''h'' \<notin> fst ` set [(''g'', JObj [(''services'', JArr [JStr ''svc''])])]
   \<and> snd (RouterDMain exampleFile exampleParse 0 ''routerd.json'') = Uncaught std_out_of_range"
proof -
  have opened: "exampleFile ''routerd.json'' = Some exampleText"
    by (simp add: exampleFile_def)
  have parsed: "exampleParse exampleText = Some exampleConfig"
    by (simp add: exampleParse_def)
  have shaped: "\<forall>route\<in>set [JObj [(''r'', JStr ''/x''), (''g'', JStr ''h'')]]. \<exists>r g.
        andThen (jat_const route ''r'') get_string = Inr r
        \<and> andThen (jat_const route ''g'') get_string = Inr g"
    by (simp add: json_access_defs)
  have undeclared: "\<exists>route\<in>set [JObj [(''r'', JStr ''/x''), (''g'', JStr ''h'')]]. \<exists>g.
        andThen (jat_const route ''g'') get_string = Inr g
        \<and> g \<notin> fst ` set [(''g'', JObj [(''services'', JArr [JStr ''svc''])])]"
    by (simp add: json_access_defs)
  from undeclared_graph_in_route [where readFile = exampleFile and parse = exampleParse,
      OF opened parsed exampleConfig_stages(1,2,3) example_hosts exampleConfig_stages(4)
         example_graphs exampleConfig_stages(5) shaped undeclared]
    opened parsed
  show ?thesis by simp
qed

text \<open>
  C8 (as the code has it). When the file opens and the parser rejects its content, the
  exception of the parser leaves RouterDMain: nothing is written to \<^verbatim>\<open>std::cerr\<close> and
  no code is returned. When the file cannot be opened, ParseConfig writes
  \<open>Failed to open\<close> with the path to \<^verbatim>\<open>std::cerr\<close> and returns the JSON null.
\<close>

theorem unparsable_config:
  "(readFile configPath = Some text \<and> parse text = None \<longrightarrow>
      RouterDMain readFile parse garbage configPath = ([], Uncaught json_parse_error))
   \<and> (readFile configPath = None \<longrightarrow>
      ParseConfig readFile parse configPath = ([''Failed to open '' @ configPath], Inr JNull))"
proof (intro conjI impI)
  assume "readFile configPath = Some text \<and> parse text = None"
  then have "ParseConfig readFile parse configPath = ([], Inl (Thrown json_parse_error))"
    by (simp add: ParseConfig_def)
  then show "RouterDMain readFile parse garbage configPath = ([], Uncaught json_parse_error)"
    by (simp add: RouterDMain_def)
next
  assume "readFile configPath = None"
  then show "ParseConfig readFile parse configPath
               = ([''Failed to open '' @ configPath], Inr JNull)"
    by (simp add: ParseConfig_def)
qed

text \<open>A file holding a single brace: RouterDMain does not return 1 and prints nothing.\<close>

theorem unparsable_config_counterexample:
  "RouterDMain brokenFile brokenParse 0 ''routerd.json'' = ([], Uncaught json_parse_error)
   \<and> snd (RouterDMain brokenFile brokenParse 0 ''routerd.json'') \<noteq> Returned 1"
proof -
  have "ParseConfig brokenFile brokenParse ''routerd.json'' = ([], Inl (Thrown json_parse_error))"
    by (simp add: ParseConfig_def brokenFile_def brokenParse_def)
  then have "RouterDMain brokenFile brokenParse 0 ''routerd.json'' = ([], Uncaught json_parse_error)"
    by (simp add: RouterDMain_def)
  then show ?thesis by simp
qed

theorem unparsable_config_witness:
  "brokenFile ''routerd.json'' = Some ''{''
   \<and> RouterDMain brokenFile brokenParse 0 ''routerd.json'' = ([], Uncaught json_parse_error)
   \<and> brokenFile ''missing.json'' = None
   \<and> ParseConfig brokenFile brokenParse ''missing.json'' = ([''Failed to open missing.json''], Inr JNull)"
proof -
  have f: "brokenFile ''routerd.json'' = Some ''{''" by (simp add: brokenFile_def)
  have m: "brokenFile ''missing.json'' = None" by (simp add: brokenFile_def)
  from unparsable_config [of brokenFile "''routerd.json''" "''{''" brokenParse 0]
       unparsable_config [of brokenFile "''missing.json''" "''{''" brokenParse 0] f m
  show ?thesis by (simp add: brokenParse_def)
qed

text \<open>
  After ParseConfig has returned null, RouterDMain goes on: \<open>bind4\<close> and \<open>bind6\<close> are
  taken as absent, and the conversion of \<open>config["hosts"]\<close>, null, throws.
\<close>

lemma RouterDMain_unreadable_config:
  "readFile configPath = None \<Longrightarrow>
   RouterDMain readFile parse garbage configPath
     = ([''Failed to open '' @ configPath], Uncaught json_type_error)"
  by (simp add: RouterDMain_def ParseConfig_def startup_def optString_def jcount_def
      jat_mut_def get_umap_vector_string_def get_umap_json_def)

subsection \<open>The in-progress set\<close>

text \<open>
  C10. For a request and a service name that is not in progress, NewRequest followed by
  NewReply gives back the request as it was: IsInProgress answers as before for every
  name and InProgressCount is unchanged. NewReply alone on such a name changes nothing,
  so a reply for a service that was not dispatched, or that has already replied, is
  dropped.
\<close>

theorem NewRequest_NewReply_restores:
  assumes "\<not> IsInProgress req name"
  shows "NewReply name (NewRequest name req) = req
       \<and> (\<forall>m. IsInProgress (NewReply name (NewRequest name req)) m = IsInProgress req m)
       \<and> InProgressCount (NewReply name (NewRequest name req)) = InProgressCount req
       \<and> NewReply name req = req"
proof -
  from assms have notin: "name \<notin> InProgress req"
    by (simp add: IsInProgress_def)
  then have restored: "NewReply name (NewRequest name req) = req"
    by (simp add: NewReply_def NewRequest_def)
  from notin have alone: "NewReply name req = req"
    by (simp add: NewReply_def)
  from restored alone show ?thesis by simp
qed

theorem NewRequest_NewReply_restores_witness:
  "\<not> IsInProgress exampleRequest ''b''
   \<and> NewReply ''b'' (NewRequest ''b'' exampleRequest)
       = exampleRequest
   \<and> InProgressCount (NewReply ''b'' (NewRequest ''b''
         exampleRequest)) = 1
   \<and> NewReply ''b'' exampleRequest
       = exampleRequest"
proof -
  have h: "\<not> IsInProgress exampleRequest ''b''"
    by (simp add: IsInProgress_def exampleRequest_def)
  have c: "InProgressCount exampleRequest = 1"
    by (simp add: InProgressCount_def exampleRequest_def)
  from NewRequest_NewReply_restores [OF h] h c show ?thesis by simp
qed

end
